theory Spec2Isabelle
  imports Main "HOL-Library.Word" "HOL-Library.Multiset"
begin

section \<open>Strings of the script\<close>

text \<open>
  A JavaScript string is a sequence of 16-bit code units; \<open>length\<close> counts code units.
  \<open>js\<close> writes a string literal of the script.
\<close>

type_synonym jschar = "16 word"
type_synonym jsstring = "jschar list"

definition js :: "string \<Rightarrow> jsstring" where
  "js s = map of_char s"

text \<open>
  The code units that \<^verbatim>\<open>String.prototype.trim\<close>, the regular-expression class
  \<^verbatim>\<open>\s\<close> and \<^verbatim>\<open>parseInt\<close> treat as white space (WhiteSpace and LineTerminator of
  ECMAScript): TAB, LF, VT, FF, CR, SP, NBSP, U+1680, U+2000..U+200A, U+2028, U+2029,
  U+202F, U+205F, U+3000 and U+FEFF.
\<close>

definition isWhiteSpace :: "jschar \<Rightarrow> bool" where
  "isWhiteSpace c =
     (c = 0x09 \<or> c = 0x0A \<or> c = 0x0B \<or> c = 0x0C \<or> c = 0x0D \<or> c = 0x20 \<or> c = 0xA0 \<or>
      c = 0x1680 \<or> (0x2000 \<le> c \<and> c \<le> 0x200A) \<or> c = 0x2028 \<or> c = 0x2029 \<or>
      c = 0x202F \<or> c = 0x205F \<or> c = 0x3000 \<or> c = 0xFEFF)"

text \<open>The class \<^verbatim>\<open>\d\<close>: the ten ASCII digits.\<close>

definition isDigit :: "jschar \<Rightarrow> bool" where
  "isDigit c = (0x30 \<le> c \<and> c \<le> 0x39)"

definition trim :: "jsstring \<Rightarrow> jsstring" where
  "trim s = rev (dropWhile isWhiteSpace (rev (dropWhile isWhiteSpace s)))"

fun startsWith :: "jsstring \<Rightarrow> jsstring \<Rightarrow> bool" where
  "startsWith s [] = True"
| "startsWith [] (p # ps) = False"
| "startsWith (c # cs) (p # ps) = (c = p \<and> startsWith cs ps)"

text \<open>
  \<^verbatim>\<open>s.split(sep)\<close> for a separator of one code unit: the pieces between the
  occurrences of the separator, so the empty string splits into one empty piece.
\<close>

fun split :: "jschar \<Rightarrow> jsstring \<Rightarrow> jsstring list" where
  "split sep [] = [[]]"
| "split sep (c # cs) =
     (if c = sep then [] # split sep cs
      else (case split sep cs of [] \<Rightarrow> [[c]] | w # ws \<Rightarrow> (c # w) # ws))"

text \<open>
  \<^verbatim>\<open>a[i]\<close> on an array: \<open>None\<close> is \<^verbatim>\<open>undefined\<close>, the value of an index out
  of range.
\<close>

fun index :: "'a list \<Rightarrow> nat \<Rightarrow> 'a option" where
  "index [] i = None"
| "index (x # xs) 0 = Some x"
| "index (x # xs) (Suc i) = index xs i"

text \<open>
  \<^verbatim>\<open>parseInt(x, 10)\<close>. The argument is converted to a string (\<^verbatim>\<open>undefined\<close>
  becomes the string "undefined"), leading white space is skipped, one sign is read,
  then the longest run of decimal digits; with no digit the result is \<^verbatim>\<open>NaN\<close>,
  here \<open>None\<close>. The number is kept as an exact integer: the script only compares it
  with a string length, which is below \<open>2^53\<close>, and rounding to a double is
  monotone and exact below \<open>2^53\<close>, so the comparison is the same.
\<close>

definition digitVal :: "jschar \<Rightarrow> int" where
  "digitVal c = int (unat c) - 48"

definition digitsVal :: "jsstring \<Rightarrow> int" where
  "digitsVal ds = foldl (\<lambda>acc c. 10 * acc + digitVal c) 0 ds"

definition ToString :: "jsstring option \<Rightarrow> jsstring" where
  "ToString x = (case x of None \<Rightarrow> js ''undefined'' | Some s \<Rightarrow> s)"

definition parseInt10 :: "jsstring option \<Rightarrow> int option" where
  "parseInt10 x =
     (let s = dropWhile isWhiteSpace (ToString x);
          sgn = (if s \<noteq> [] \<and> hd s = 0x2D then - 1 else 1);
          s' = (if s \<noteq> [] \<and> (hd s = 0x2B \<or> hd s = 0x2D) then tl s else s);
          z = takeWhile isDigit s'
      in if z = [] then None else Some (sgn * digitsVal z))"

section \<open>Regular expressions\<close>

text \<open>
  The two patterns of the script use character classes (with the escapes \<^verbatim>\<open>\d\<close>
  and \<^verbatim>\<open>\s\<close> and single characters), negated classes, literal characters,
  concatenation and the quantifiers \<^verbatim>\<open>+\<close> and \<^verbatim>\<open>{7,}\<close>. Both are
  anchored by \<^verbatim>\<open>^\<close> and \<^verbatim>\<open>$\<close> and carry no flag, so \<^verbatim>\<open>test\<close> succeeds
  exactly when the whole string matches the pattern between the anchors. Matching is
  by derivatives, which needs the empty pattern, the failing pattern and alternation.
\<close>

datatype cls = ClsDigit | ClsSpace | ClsChar jschar

fun clsHas :: "cls \<Rightarrow> jschar \<Rightarrow> bool" where
  "clsHas ClsDigit c = isDigit c"
| "clsHas ClsSpace c = isWhiteSpace c"
| "clsHas (ClsChar d) c = (c = d)"

datatype regex =
    Never
  | Empty
  | OneOf "cls list"
  | NoneOf "cls list"
  | Cat regex regex
  | Alt regex regex
  | AtLeast nat regex

fun nullable :: "regex \<Rightarrow> bool" where
  "nullable Never = False"
| "nullable Empty = True"
| "nullable (OneOf ks) = False"
| "nullable (NoneOf ks) = False"
| "nullable (Cat r s) = (nullable r \<and> nullable s)"
| "nullable (Alt r s) = (nullable r \<or> nullable s)"
| "nullable (AtLeast n r) = (n = 0 \<or> nullable r)"

fun deriv :: "jschar \<Rightarrow> regex \<Rightarrow> regex" where
  "deriv c Never = Never"
| "deriv c Empty = Never"
| "deriv c (OneOf ks) = (if list_ex (\<lambda>k. clsHas k c) ks then Empty else Never)"
| "deriv c (NoneOf ks) = (if list_ex (\<lambda>k. clsHas k c) ks then Never else Empty)"
| "deriv c (Cat r s) =
     (if nullable r then Alt (Cat (deriv c r) s) (deriv c s) else Cat (deriv c r) s)"
| "deriv c (Alt r s) = Alt (deriv c r) (deriv c s)"
| "deriv c (AtLeast n r) = Cat (deriv c r) (AtLeast (n - 1) r)"

fun matches :: "regex \<Rightarrow> jsstring \<Rightarrow> bool" where
  "matches r [] = nullable r"
| "matches r (c # cs) = matches (deriv c r) cs"

text \<open>\<^verbatim>\<open>/^...$/.test(s)\<close> for the pattern between the anchors.\<close>

definition test :: "regex \<Rightarrow> jsstring \<Rightarrow> bool" where
  "test r s = matches r s"

text \<open>The words a pattern denotes, to reason about \<open>matches\<close>.\<close>

fun lang :: "regex \<Rightarrow> jsstring set" where
  "lang Never = {}"
| "lang Empty = {[]}"
| "lang (OneOf ks) = {[c] | c. list_ex (\<lambda>k. clsHas k c) ks}"
| "lang (NoneOf ks) = {[c] | c. \<not> list_ex (\<lambda>k. clsHas k c) ks}"
| "lang (Cat r s) = {u @ v | u v. u \<in> lang r \<and> v \<in> lang s}"
| "lang (Alt r s) = lang r \<union> lang s"
| "lang (AtLeast n r) = {concat ws | ws. n \<le> length ws \<and> set ws \<subseteq> lang r}"

section \<open>Rule checking\<close>

text \<open>\<^verbatim>\<open>/^[^\s@]+@[^\s@]+\.[^\s@]+$/\<close>\<close>

definition emailRegex :: regex where
  "emailRegex =
     Cat (AtLeast 1 (NoneOf [ClsSpace, ClsChar 0x40]))
       (Cat (OneOf [ClsChar 0x40])
         (Cat (AtLeast 1 (NoneOf [ClsSpace, ClsChar 0x40]))
           (Cat (OneOf [ClsChar 0x2E])
             (AtLeast 1 (NoneOf [ClsSpace, ClsChar 0x40])))))"

text \<open>\<^verbatim>\<open>/^[\d\s\-\+\(\)]{7,}$/\<close>\<close>

definition phoneRegex :: regex where
  "phoneRegex =
     AtLeast 7 (OneOf [ClsDigit, ClsSpace, ClsChar 0x2D, ClsChar 0x2B, ClsChar 0x28, ClsChar 0x29])"

text \<open>
  \<^verbatim>\<open>checkRule(value, rule)\<close>. A comparison with \<^verbatim>\<open>NaN\<close> is false. No step of
  the function can raise on two strings, so the result is a plain boolean.
\<close>

definition checkRule :: "jsstring \<Rightarrow> jsstring \<Rightarrow> bool" where
  "checkRule v rule =
     (if rule = js ''required'' then length (trim v) > 0
      else if startsWith rule (js ''minLength'') then
        (case parseInt10 (index (split 0x3A rule) 1) of
           None \<Rightarrow> False
         | Some n \<Rightarrow> int (length v) \<ge> n)
      else if rule = js ''email'' then test emailRegex v
      else if rule = js ''phone'' then test phoneRegex v \<or> v = []
      else True)"

section \<open>Notions of the specification\<close>

text \<open>
  The decimal numeral of a natural number, as it stands for \<open>N\<close> in a rule specifier
  \<^verbatim>\<open>minLength:N\<close>.
\<close>

fun decimal :: "nat \<Rightarrow> jsstring" where
  "decimal n = (if n < 10 then [of_nat (48 + n)] else decimal (n div 10) @ [of_nat (48 + n mod 10)])"

declare decimal.simps [simp del]

text \<open>A rule specifier of the form \<^verbatim>\<open>minLength:N\<close>.\<close>

definition minLengthForm :: "jsstring \<Rightarrow> bool" where
  "minLengthForm rule = (\<exists>n. rule = js ''minLength:'' @ decimal n)"

text \<open>
  The specification's wording of the email rule, word for word: exactly one \<open>@\<close>, at
  least one non-whitespace character on each side of it, and a dot after the \<open>@\<close>
  with non-whitespace on both of its sides.
\<close>

definition emailAsWorded :: "jsstring \<Rightarrow> bool" where
  "emailAsWorded v =
     (count_list v 0x40 = 1 \<and>
      (\<exists>l r. v = l @ [0x40] @ r \<and>
         list_ex (\<lambda>c. \<not> isWhiteSpace c) l \<and> list_ex (\<lambda>c. \<not> isWhiteSpace c) r \<and>
         (\<exists>d e. r = d @ [0x2E] @ e \<and>
            list_ex (\<lambda>c. \<not> isWhiteSpace c) d \<and> list_ex (\<lambda>c. \<not> isWhiteSpace c) e)))"

text \<open>A code unit that the pattern of the email rule accepts outside \<open>@\<close> and the dot.\<close>

definition localChar :: "jschar \<Rightarrow> bool" where
  "localChar c = (\<not> isWhiteSpace c \<and> c \<noteq> 0x40)"

section \<open>The document\<close>

text \<open>
  An element carries an identity (\<open>nid\<close>, which the script's \<^verbatim>\<open>===\<close> compares), its
  tag name and the names of its attributes in lower case, as the parser of an HTML
  document leaves them, the class list, the inline style, and the text last assigned to
  \<^verbatim>\<open>textContent\<close>. Of a form control it carries \<open>elValue\<close>, what
  \<^verbatim>\<open>element.value\<close> reads, \<open>defaultValue\<close>, the value that \<^verbatim>\<open>reset()\<close> gives
  the control, and \<open>dirty\<close>, the flag of a text area that is set once the user has
  edited the value. The controls whose value the script reads are inputs and text areas.
  Text nodes are not elements and are left out. The page keeps every element that
  exists: the tree of the document and the trees that are detached from it.
\<close>

record node =
  nid :: nat
  tagName :: string
  attrs :: "(string \<times> string) list"
  classList :: "string list"
  style :: "(string \<times> string) list"
  elValue :: jsstring
  defaultValue :: jsstring
  dirty :: bool
  textContent :: jsstring

datatype elem = Elem (props: node) (kids: "elem list")

definition eid :: "elem \<Rightarrow> nat" where
  "eid e = nid (props e)"

text \<open>The elements of a tree in document order, the root first.\<close>

fun nodes :: "elem \<Rightarrow> elem list" where
  "nodes (Elem n ks) = Elem n ks # concat (map nodes ks)"

definition allNodes :: "elem list \<Rightarrow> elem list" where
  "allNodes F = concat (map nodes F)"

definition descendants :: "elem \<Rightarrow> elem list" where
  "descendants e = allNodes (kids e)"

definition getElem :: "nat \<Rightarrow> elem list \<Rightarrow> elem option" where
  "getElem i F = find (\<lambda>e. eid e = i) (allNodes F)"

text \<open>\<^verbatim>\<open>element.parentElement\<close>; \<open>None\<close> is \<^verbatim>\<open>null\<close>.\<close>

definition parentElement :: "nat \<Rightarrow> elem list \<Rightarrow> nat option" where
  "parentElement i F =
     map_option eid (find (\<lambda>e. list_ex (\<lambda>k. eid k = i) (kids e)) (allNodes F))"

text \<open>
  The selectors of the script are compound selectors of a tag name, one attribute
  with its value and one class, each optional: \<^verbatim>\<open>input[type="email"]\<close> is
  \<open>Selector (Some ''input'') (Some (''type'', ''email'')) None\<close>.
\<close>

datatype selector =
  Selector (selTag: "string option") (selAttr: "(string \<times> string) option") (selClass: "string option")

text \<open>
  Matching in an HTML document: the tag name and the attribute name of the selector
  are taken in ASCII lower case; the value of an attribute is compared exactly, but
  for the attributes that HTML lists as case-insensitive in selectors, among them
  \<^verbatim>\<open>type\<close>, it is compared in ASCII lower case. A class is compared exactly, as in
  a document that is not in quirks mode.
\<close>

definition asciiLower :: "char \<Rightarrow> char" where
  "asciiLower c =
     (case map_of (zip ''ABCDEFGHIJKLMNOPQRSTUVWXYZ'' ''abcdefghijklmnopqrstuvwxyz'') c of
        None \<Rightarrow> c
      | Some l \<Rightarrow> l)"

definition caseInsensitiveAttrs :: "string list" where
  "caseInsensitiveAttrs =
     [''accept'', ''accept-charset'', ''align'', ''alink'', ''axis'', ''bgcolor'', ''charset'',
      ''checked'', ''clear'', ''codetype'', ''color'', ''compact'', ''declare'', ''defer'',
      ''dir'', ''direction'', ''disabled'', ''enctype'', ''face'', ''frame'', ''hreflang'',
      ''http-equiv'', ''lang'', ''language'', ''link'', ''media'', ''method'', ''multiple'',
      ''nohref'', ''noresize'', ''noshade'', ''nowrap'', ''readonly'', ''rel'', ''rev'',
      ''rules'', ''scope'', ''scrolling'', ''selected'', ''shape'', ''target'', ''text'',
      ''type'', ''valign'', ''valuetype'', ''vlink'']"

definition attrMatches :: "string \<Rightarrow> string \<Rightarrow> node \<Rightarrow> bool" where
  "attrMatches k v n =
     (case map_of (attrs n) (map asciiLower k) of
        None \<Rightarrow> False
      | Some w \<Rightarrow>
          if map asciiLower k \<in> set caseInsensitiveAttrs
          then map asciiLower w = map asciiLower v
          else w = v)"

fun matchesSel :: "selector \<Rightarrow> node \<Rightarrow> bool" where
  "matchesSel (Selector t a c) n =
     ((case t of None \<Rightarrow> True | Some x \<Rightarrow> tagName n = map asciiLower x) \<and>
      (case a of None \<Rightarrow> True | Some (k, v) \<Rightarrow> attrMatches k v n) \<and>
      (case c of None \<Rightarrow> True | Some x \<Rightarrow> x \<in> set (classList n)))"

text \<open>
  \<^verbatim>\<open>element.querySelector(sel)\<close>: the first descendant in document order that
  matches, the element itself excluded.
\<close>

definition querySelector :: "selector \<Rightarrow> nat \<Rightarrow> elem list \<Rightarrow> nat option" where
  "querySelector sel i F =
     (case getElem i F of
        None \<Rightarrow> None
      | Some e \<Rightarrow> map_option eid (find (\<lambda>x. matchesSel sel (props x)) (descendants e)))"

text \<open>Changing the properties of the element \<open>i\<close>; the tree keeps its shape.\<close>

fun updateProps :: "nat \<Rightarrow> (node \<Rightarrow> node) \<Rightarrow> elem \<Rightarrow> elem" where
  "updateProps i f (Elem n ks) = Elem (if nid n = i then f n else n) (map (updateProps i f) ks)"

text \<open>Changing the list of children of the element \<open>i\<close>.\<close>

fun updateKids :: "nat \<Rightarrow> (elem list \<Rightarrow> elem list) \<Rightarrow> elem \<Rightarrow> elem" where
  "updateKids i g (Elem n ks) =
     (if nid n = i then Elem n (g ks) else Elem n (map (updateKids i g) ks))"

text \<open>Cutting the element \<open>i\<close>, with its subtree, out of a tree.\<close>

fun prune :: "nat \<Rightarrow> elem \<Rightarrow> elem" where
  "prune i (Elem n ks) = Elem n (map (prune i) (filter (\<lambda>k. eid k \<noteq> i) ks))"

definition pruneAll :: "nat \<Rightarrow> elem list \<Rightarrow> elem list" where
  "pruneAll i F = map (prune i) (filter (\<lambda>k. eid k \<noteq> i) F)"

datatype error = TypeError | HierarchyRequestError

text \<open>
  \<^verbatim>\<open>element.remove()\<close>: the element leaves its parent and is the root of a detached
  tree from then on; on an element with no parent nothing happens.
\<close>

definition remove :: "nat \<Rightarrow> elem list \<Rightarrow> elem list" where
  "remove i F =
     (case getElem i F of
        None \<Rightarrow> F
      | Some e \<Rightarrow> if list_ex (\<lambda>k. eid k = i) F then F else pruneAll i F @ [e])"

text \<open>
  \<^verbatim>\<open>parent.appendChild(child)\<close>: the child leaves the place it has and becomes the
  last child of the parent. It raises when the parent is the child or lies inside it.
\<close>

definition appendChild :: "nat \<Rightarrow> nat \<Rightarrow> elem list \<Rightarrow> error + elem list" where
  "appendChild p c F =
     (case getElem c F of
        None \<Rightarrow> Inl TypeError
      | Some e \<Rightarrow>
          if list_ex (\<lambda>x. eid x = p) (nodes e) then Inl HierarchyRequestError
          else Inr (map (updateKids p (\<lambda>ks. ks @ [e])) (pruneAll c F)))"

text \<open>
  \<^verbatim>\<open>parent.insertBefore(child, parent.firstChild)\<close>: the child becomes the first
  child of the parent (also when the parent has no child, where the reference is
  \<^verbatim>\<open>null\<close> and the child is appended).
\<close>

definition insertFirst :: "nat \<Rightarrow> nat \<Rightarrow> elem list \<Rightarrow> error + elem list" where
  "insertFirst p c F =
     (case getElem c F of
        None \<Rightarrow> Inl TypeError
      | Some e \<Rightarrow>
          if list_ex (\<lambda>x. eid x = p) (nodes e) then Inl HierarchyRequestError
          else Inr (map (updateKids p (\<lambda>ks. e # ks)) (pruneAll c F)))"

text \<open>
  The value of a text area is its raw value with the newlines normalized: CR LF and a
  lone CR become LF.
\<close>

fun normalizeNewlines :: "jsstring \<Rightarrow> jsstring" where
  "normalizeNewlines [] = []"
| "normalizeNewlines [c] = [if c = 0x0D then 0x0A else c]"
| "normalizeNewlines (c # d # cs) =
     (if c = 0x0D \<and> d = 0x0A then 0x0A # normalizeNewlines cs
      else (if c = 0x0D then 0x0A else c) # normalizeNewlines (d # cs))"

text \<open>
  What assigning \<^verbatim>\<open>textContent\<close> does to the element itself. The text is the only
  child from then on. On a text area the children are its default value, so the value
  that \<^verbatim>\<open>reset()\<close> gives it changes, and as long as the user has not edited the
  text area its value follows.
\<close>

definition assignText :: "jsstring \<Rightarrow> node \<Rightarrow> node" where
  "assignText s n =
     (if tagName n = ''textarea''
      then n\<lparr>textContent := s, defaultValue := normalizeNewlines s,
             elValue := (if dirty n then elValue n else normalizeNewlines s)\<rparr>
      else n\<lparr>textContent := s\<rparr>)"

text \<open>
  \<^verbatim>\<open>element.textContent = s\<close>: the children of the element are detached and the
  text is its content.
\<close>

definition setTextContent :: "nat \<Rightarrow> jsstring \<Rightarrow> elem list \<Rightarrow> elem list" where
  "setTextContent i s F =
     (case getElem i F of
        None \<Rightarrow> F
      | Some e \<Rightarrow>
          map (updateProps i (assignText s)) (map (updateKids i (\<lambda>ks. [])) F) @ kids e)"

definition classListAdd :: "string \<Rightarrow> node \<Rightarrow> node" where
  "classListAdd c n = n\<lparr>classList := (if c \<in> set (classList n) then classList n else classList n @ [c])\<rparr>"

definition classListRemove :: "string \<Rightarrow> node \<Rightarrow> node" where
  "classListRemove c n = n\<lparr>classList := filter (\<lambda>x. x \<noteq> c) (classList n)\<rparr>"

definition setStyle :: "string \<Rightarrow> string \<Rightarrow> node \<Rightarrow> node" where
  "setStyle k v n = n\<lparr>style := filter (\<lambda>p. fst p \<noteq> k) (style n) @ [(k, v)]\<rparr>"

section \<open>The page and the validator\<close>

record field =
  selector :: selector
  rules :: "jsstring list"
  message :: jsstring

text \<open>
  An instance of the class: \<^verbatim>\<open>this.form\<close> (\<open>None\<close> is \<^verbatim>\<open>null\<close>) and
  \<^verbatim>\<open>this.fields\<close> in declaration order (\<open>None\<close> is \<^verbatim>\<open>undefined\<close>, the state
  after the constructor's early return).
\<close>

record FormValidator =
  form :: "nat option"
  fields' :: "(string \<times> field) list option"

text \<open>
  The closures the script registers: as listeners
  \<^verbatim>\<open>() => this.validateField(element)\<close>, \<^verbatim>\<open>() => this.clearError(element)\<close> and
  \<^verbatim>\<open>(e) => this.handleSubmit(e)\<close>, as timeouts the two of \<^verbatim>\<open>submitForm\<close>, which
  capture the form and the banner.
\<close>

datatype handler = OnBlur FormValidator nat | OnInput FormValidator nat | OnSubmit FormValidator

datatype callback = ResetThenFade nat nat | RemoveBanner nat

record page =
  forest :: "elem list"
  document :: nat
  nextId :: nat
  listeners :: "(nat \<times> string \<times> handler) list"
  timers :: "(nat \<times> callback) list"
  now :: nat

record event =
  defaultPrevented :: bool

text \<open>\<^verbatim>\<open>document.querySelector(sel)\<close>: the first element of the document that matches.\<close>

definition documentQuerySelector :: "selector \<Rightarrow> page \<Rightarrow> nat option" where
  "documentQuerySelector sel pg =
     (case getElem (document pg) (forest pg) of
        None \<Rightarrow> None
      | Some d \<Rightarrow> map_option eid (find (\<lambda>x. matchesSel sel (props x)) (nodes d)))"

definition createElement :: "string \<Rightarrow> page \<Rightarrow> nat \<times> page" where
  "createElement tag pg =
     (nextId pg,
      pg\<lparr>forest := forest pg @
            [Elem \<lparr>nid = nextId pg, tagName = tag, attrs = [], classList = [], style = [],
                   elValue = [], defaultValue = [], dirty = False, textContent = []\<rparr> []],
         nextId := Suc (nextId pg)\<rparr>)"

definition setTimeout :: "callback \<Rightarrow> nat \<Rightarrow> page \<Rightarrow> page" where
  "setTimeout cb delay pg = pg\<lparr>timers := timers pg @ [(now pg + delay, cb)]\<rparr>"

definition elementValue :: "nat \<Rightarrow> page \<Rightarrow> jsstring" where
  "elementValue i pg = (case getElem i (forest pg) of None \<Rightarrow> [] | Some e \<Rightarrow> elValue (props e))"

text \<open>The table the constructor assigns to \<^verbatim>\<open>this.fields\<close>.\<close>

definition fieldTable :: "(string \<times> field) list" where
  "fieldTable =
     [(''email'',
       \<lparr>selector = Selector (Some ''input'') (Some (''type'', ''email'')) None,
        rules = [js ''required'', js ''email''],
        message = js ''Please enter a valid email address''\<rparr>),
      (''name'',
       \<lparr>selector = Selector (Some ''input'') (Some (''name'', ''name'')) None,
        rules = [js ''required'', js ''minLength:2''],
        message = js ''Name must be at least 2 characters''\<rparr>),
      (''phone'',
       \<lparr>selector = Selector (Some ''input'') (Some (''type'', ''tel'')) None,
        rules = [js ''phone''],
        message = js ''Please enter a valid phone number''\<rparr>),
      (''message'',
       \<lparr>selector = Selector (Some ''textarea'') (Some (''name'', ''message'')) None,
        rules = [js ''required'', js ''minLength:10''],
        message = js ''Message must be at least 10 characters''\<rparr>)]"

definition errorMessageSel :: selector where
  "errorMessageSel = Selector None None (Some ''error-message'')"

definition createErrorElement :: "page \<Rightarrow> nat \<times> page" where
  "createErrorElement pg =
     (case createElement ''div'' pg of
        (error, pg1) \<Rightarrow>
          (error,
           pg1\<lparr>forest := map (updateProps error
                  (\<lambda>n. n\<lparr>classList := [''error-message''],
                          style := [(''color'', ''#dc3545''), (''font-size'', ''12px''),
                                    (''margin-top'', ''4px'')]\<rparr>)) (forest pg1)\<rparr>))"

definition showError :: "nat \<Rightarrow> jsstring \<Rightarrow> page \<Rightarrow> error + page" where
  "showError element msg pg =
     (let pg1 = pg\<lparr>forest := map (updateProps element (classListAdd ''field-error'')) (forest pg)\<rparr>
      in case parentElement element (forest pg1) of
           None \<Rightarrow> Inl TypeError
         | Some parent \<Rightarrow>
             (case (case querySelector errorMessageSel parent (forest pg1) of
                      Some found \<Rightarrow> (found, pg1)
                    | None \<Rightarrow> createErrorElement pg1) of
                (errorElement, pg2) \<Rightarrow>
                  (case appendChild parent errorElement
                          (setTextContent errorElement msg (forest pg2)) of
                     Inl err \<Rightarrow> Inl err
                   | Inr F \<Rightarrow> Inr (pg2\<lparr>forest := F\<rparr>))))"

definition clearError :: "nat \<Rightarrow> page \<Rightarrow> error + page" where
  "clearError element pg =
     (let pg1 = pg\<lparr>forest := map (updateProps element (classListRemove ''field-error'')) (forest pg)\<rparr>
      in case parentElement element (forest pg1) of
           None \<Rightarrow> Inl TypeError
         | Some parent \<Rightarrow>
             (case querySelector errorMessageSel parent (forest pg1) of
                None \<Rightarrow> Inr pg1
              | Some errorElement \<Rightarrow> Inr (pg1\<lparr>forest := remove errorElement (forest pg1)\<rparr>)))"

text \<open>
  \<^verbatim>\<open>findRules(element)\<close>: the first descriptor, in declaration order, whose
  selector finds this very element in the form. A \<^verbatim>\<open>for...in\<close> over
  \<^verbatim>\<open>undefined\<close> runs no iteration.
\<close>

fun findRulesIn :: "nat option \<Rightarrow> nat \<Rightarrow> elem list \<Rightarrow> (string \<times> field) list \<Rightarrow> error + field option" where
  "findRulesIn fm element F [] = Inr None"
| "findRulesIn fm element F ((name, fd) # rest) =
     (case fm of
        None \<Rightarrow> Inl TypeError
      | Some f \<Rightarrow>
          if querySelector (selector fd) f F = Some element then Inr (Some fd)
          else findRulesIn fm element F rest)"

definition findRules :: "FormValidator \<Rightarrow> nat \<Rightarrow> page \<Rightarrow> error + field option" where
  "findRules this element pg =
     (case fields' this of
        None \<Rightarrow> Inr None
      | Some tbl \<Rightarrow> findRulesIn (form this) element (forest pg) tbl)"

text \<open>
  The loop of \<^verbatim>\<open>validateField\<close> over the rules: whether all passed, and the rules
  that \<open>checkRule\<close> was called on, in the order of the calls.
\<close>

fun checkRules :: "jsstring \<Rightarrow> jsstring list \<Rightarrow> bool \<times> jsstring list" where
  "checkRules v [] = (True, [])"
| "checkRules v (rule # rest) =
     (if \<not> checkRule v rule then (False, [rule])
      else (case checkRules v rest of (ok, evaluated) \<Rightarrow> (ok, rule # evaluated)))"

text \<open>
  \<^verbatim>\<open>validateField(element)\<close>: the result, the rules evaluated and the page it
  leaves.
\<close>

definition validateField :: "FormValidator \<Rightarrow> nat \<Rightarrow> page \<Rightarrow> error + (bool \<times> jsstring list \<times> page)" where
  "validateField this element pg =
     (case findRules this element pg of
        Inl err \<Rightarrow> Inl err
      | Inr None \<Rightarrow> Inr (True, [], pg)
      | Inr (Some fd) \<Rightarrow>
          (case checkRules (elementValue element pg) (rules fd) of
             (ok, evaluated) \<Rightarrow>
               if \<not> ok then
                 (case showError element (message fd) pg of
                    Inl err \<Rightarrow> Inl err
                  | Inr pg' \<Rightarrow> Inr (False, evaluated, pg'))
               else
                 (case clearError element pg of
                    Inl err \<Rightarrow> Inl err
                  | Inr pg' \<Rightarrow> Inr (True, evaluated, pg'))))"

text \<open>
  \<^verbatim>\<open>submitForm()\<close>: the banner is created, inserted as the first child of the form,
  and the first timeout is set. Assigning \<^verbatim>\<open>className\<close> and
  \<^verbatim>\<open>style.cssText\<close> replaces the class list and the inline style.
\<close>

definition successText :: jsstring where
  "successText = js ''Thank you! Your message has been sent successfully.''"

definition submitForm :: "FormValidator \<Rightarrow> page \<Rightarrow> error + page" where
  "submitForm this pg =
     (case createElement ''div'' pg of
        (successMessage, pg1) \<Rightarrow>
          (let F1 = map (updateProps successMessage
                     (\<lambda>n. n\<lparr>classList := [''form-success-message'']\<rparr>)) (forest pg1);
               F2 = setTextContent successMessage successText F1;
               F3 = map (updateProps successMessage
                     (\<lambda>n. n\<lparr>style := [(''background-color'', ''#28a745''), (''color'', ''white''),
                                       (''padding'', ''12px 16px''), (''border-radius'', ''4px''),
                                       (''margin-bottom'', ''16px''),
                                       (''animation'', ''slideIn 0.3s ease-out'')]\<rparr>)) F2
           in case form this of
                None \<Rightarrow> Inl TypeError
              | Some f \<Rightarrow>
                  (case insertFirst f successMessage F3 of
                     Inl err \<Rightarrow> Inl err
                   | Inr F4 \<Rightarrow>
                       Inr (setTimeout (ResetThenFade f successMessage) 2000 (pg1\<lparr>forest := F4\<rparr>)))))"

text \<open>
  One visit of the loop of \<^verbatim>\<open>handleSubmit\<close>: the descriptor, the element its
  selector found (\<open>None\<close> when there is none and \<open>validateField\<close> is not called), the
  result of \<open>validateField\<close> and the rules it evaluated.
\<close>

record visit =
  descriptor :: field
  target :: "nat option"
  valid :: bool
  evaluated :: "jsstring list"

fun validateAll :: "FormValidator \<Rightarrow> field list \<Rightarrow> bool \<Rightarrow> visit list \<Rightarrow> page \<Rightarrow>
    error + (bool \<times> visit list \<times> page)" where
  "validateAll this [] isValid log pg = Inr (isValid, log, pg)"
| "validateAll this (fd # rest) isValid log pg =
     (case form this of
        None \<Rightarrow> Inl TypeError
      | Some f \<Rightarrow>
          (case querySelector (selector fd) f (forest pg) of
             None \<Rightarrow>
               validateAll this rest isValid
                 (log @ [\<lparr>descriptor = fd, target = None, valid = True, evaluated = []\<rparr>]) pg
           | Some element \<Rightarrow>
               (case validateField this element pg of
                  Inl err \<Rightarrow> Inl err
                | Inr (ok, ev, pg') \<Rightarrow>
                    validateAll this rest (if \<not> ok then False else isValid)
                      (log @ [\<lparr>descriptor = fd, target = Some element, valid = ok, evaluated = ev\<rparr>])
                      pg')))"

text \<open>
  \<^verbatim>\<open>handleSubmit(e)\<close>: the event after \<^verbatim>\<open>e.preventDefault()\<close>, and either the
  error raised or the visits of the loop and the page. \<^verbatim>\<open>Object.values\<close> raises on
  \<^verbatim>\<open>undefined\<close>.
\<close>

definition handleSubmit :: "FormValidator \<Rightarrow> event \<Rightarrow> page \<Rightarrow> event \<times> (error + (visit list \<times> page))" where
  "handleSubmit this e pg =
     (e\<lparr>defaultPrevented := True\<rparr>,
      (case fields' this of
         None \<Rightarrow> Inl TypeError
       | Some tbl \<Rightarrow>
           (case validateAll this (map snd tbl) True [] pg of
              Inl err \<Rightarrow> Inl err
            | Inr (isValid, log, pg') \<Rightarrow>
                if isValid then
                  (case submitForm this pg' of
                     Inl err \<Rightarrow> Inl err
                   | Inr pg'' \<Rightarrow> Inr (log, pg''))
                else Inr (log, pg'))))"

text \<open>\<^verbatim>\<open>init()\<close>\<close>

fun addFieldListeners :: "FormValidator \<Rightarrow> field list \<Rightarrow> page \<Rightarrow> error + page" where
  "addFieldListeners this [] pg = Inr pg"
| "addFieldListeners this (fd # rest) pg =
     (case form this of
        None \<Rightarrow> Inl TypeError
      | Some f \<Rightarrow>
          (case querySelector (selector fd) f (forest pg) of
             None \<Rightarrow> addFieldListeners this rest pg
           | Some element \<Rightarrow>
               addFieldListeners this rest
                 (pg\<lparr>listeners := listeners pg @
                       [(element, ''blur'', OnBlur this element),
                        (element, ''input'', OnInput this element)]\<rparr>)))"

definition init :: "FormValidator \<Rightarrow> page \<Rightarrow> error + page" where
  "init this pg =
     (case fields' this of
        None \<Rightarrow> Inl TypeError
      | Some tbl \<Rightarrow>
          (case addFieldListeners this (map snd tbl) pg of
             Inl err \<Rightarrow> Inl err
           | Inr pg' \<Rightarrow>
               (case form this of
                  None \<Rightarrow> Inl TypeError
                | Some f \<Rightarrow> Inr (pg'\<lparr>listeners := listeners pg' @ [(f, ''submit'', OnSubmit this)]\<rparr>))))"

text \<open>\<^verbatim>\<open>new FormValidator(formSelector)\<close>: the instance and the page.\<close>

definition newFormValidator :: "selector \<Rightarrow> page \<Rightarrow> error + (FormValidator \<times> page)" where
  "newFormValidator formSelector pg =
     (case documentQuerySelector formSelector pg of
        None \<Rightarrow> Inr (\<lparr>form = None, fields' = None\<rparr>, pg)
      | Some f \<Rightarrow>
          (let this = \<lparr>form = Some f, fields' = Some fieldTable\<rparr>
           in case init this pg of
                Inl err \<Rightarrow> Inl err
              | Inr pg' \<Rightarrow> Inr (this, pg')))"

text \<open>
  The value of a \<^verbatim>\<open>new\<close> expression is the object constructed, also when the
  constructor returns early with a bare \<^verbatim>\<open>return\<close>; an object is truthy whatever
  its fields hold.
\<close>

definition truthy :: "FormValidator \<Rightarrow> bool" where
  "truthy obj = True"

text \<open>
  \<^verbatim>\<open>new FormValidator('form[name="contact"]') || new FormValidator('form.contact-form')
  || new FormValidator('form')\<close>: the right operand of \<^verbatim>\<open>||\<close> is evaluated only
  when the left one is falsy.
\<close>

definition contactForm :: "page \<Rightarrow> error + (FormValidator \<times> page)" where
  "contactForm pg =
     (case newFormValidator (Selector (Some ''form'') (Some (''name'', ''contact'')) None) pg of
        Inl err \<Rightarrow> Inl err
      | Inr (v1, pg1) \<Rightarrow>
          if truthy v1 then Inr (v1, pg1)
          else
            (case newFormValidator (Selector (Some ''form'') None (Some ''contact-form'')) pg1 of
               Inl err \<Rightarrow> Inl err
             | Inr (v2, pg2) \<Rightarrow>
                 if truthy v2 then Inr (v2, pg2)
                 else newFormValidator (Selector (Some ''form'') None None) pg2))"

section \<open>Events and timers\<close>

text \<open>
  Running one listener: the event, and either the error raised or the rules that
  \<open>checkRule\<close> was called on and the page.
\<close>

fun runHandler :: "handler \<Rightarrow> event \<Rightarrow> page \<Rightarrow> event \<times> (error + (jsstring list \<times> page))" where
  "runHandler (OnBlur this element) e pg =
     (e, case validateField this element pg of
           Inl err \<Rightarrow> Inl err
         | Inr (ok, ev, pg') \<Rightarrow> Inr (ev, pg'))"
| "runHandler (OnInput this element) e pg =
     (e, case clearError element pg of
           Inl err \<Rightarrow> Inl err
         | Inr pg' \<Rightarrow> Inr ([], pg'))"
| "runHandler (OnSubmit this) e pg =
     (case handleSubmit this e pg of
        (e', Inl err) \<Rightarrow> (e', Inl err)
      | (e', Inr (log, pg')) \<Rightarrow> (e', Inr (concat (map evaluated log), pg')))"

text \<open>
  \<^verbatim>\<open>form.reset()\<close> resets the resettable controls whose form owner is the form.
  In the model these are the resettable elements inside the form that have no form
  element between them and the form and carry no \<^verbatim>\<open>form\<close> attribute; a control
  that names its owner with a \<^verbatim>\<open>form\<close> attribute is left as it is. A control
  that is reset takes the value that \<open>defaultValue\<close> holds and counts as not edited.
\<close>

definition resettable :: "node \<Rightarrow> bool" where
  "resettable n =
     (tagName n \<in> {''input'', ''textarea'', ''select'', ''output''} \<and> map_of (attrs n) ''form'' = None)"

fun resetTree :: "elem \<Rightarrow> elem" where
  "resetTree (Elem n ks) =
     (if tagName n = ''form'' then Elem n ks
      else Elem (if resettable n then n\<lparr>elValue := defaultValue n, dirty := False\<rparr> else n)
             (map resetTree ks))"





section \<open>Observations of a page\<close>

definition ids :: "elem list \<Rightarrow> nat list" where
  "ids F = map eid (allNodes F)"

text \<open>
  In a page of the browser every element has an identity of its own, and the
  identities still to be given out are new.
\<close>

definition wellFormed :: "page \<Rightarrow> bool" where
  "wellFormed pg = (distinct (ids (forest pg)) \<and> list_all (\<lambda>i. i < nextId pg) (ids (forest pg)))"

definition hasClass :: "string \<Rightarrow> nat \<Rightarrow> page \<Rightarrow> bool" where
  "hasClass c i pg =
     (case getElem i (forest pg) of None \<Rightarrow> False | Some e \<Rightarrow> c \<in> set (classList (props e)))"

text \<open>
  The error-message nodes in the container of an element (its parent element), in
  document order.
\<close>

definition errorNodes :: "nat \<Rightarrow> page \<Rightarrow> elem list" where
  "errorNodes element pg =
     (case parentElement element (forest pg) of
        None \<Rightarrow> []
      | Some p \<Rightarrow>
          (case getElem p (forest pg) of
             None \<Rightarrow> []
           | Some e \<Rightarrow> filter (\<lambda>x. matchesSel errorMessageSel (props x)) (descendants e)))"

definition errorMessages :: "nat \<Rightarrow> page \<Rightarrow> jsstring list" where
  "errorMessages element pg = map (\<lambda>x. textContent (props x)) (errorNodes element pg)"

text \<open>The properties of every element of the page.\<close>

definition allProps :: "elem list \<Rightarrow> node list" where
  "allProps F = map props (allNodes F)"

text \<open>
  The changes that marking and clearing make to the properties of an element: the
  class \<^verbatim>\<open>field-error\<close> added to or removed from the field, and the text put in
  the error-message node.
\<close>

definition addMark :: "nat \<Rightarrow> node \<Rightarrow> node" where
  "addMark el n = (if nid n = el then classListAdd ''field-error'' n else n)"

definition dropMark :: "nat \<Rightarrow> node \<Rightarrow> node" where
  "dropMark el n = (if nid n = el then classListRemove ''field-error'' n else n)"

definition putText :: "nat \<Rightarrow> jsstring \<Rightarrow> node \<Rightarrow> node" where
  "putText er msg n = (if nid n = er then assignText msg n else n)"

definition isError :: "elem \<Rightarrow> bool" where
  "isError y = matchesSel errorMessageSel (props y)"


definition propsOf :: "nat \<Rightarrow> elem list \<Rightarrow> node option" where
  "propsOf i F = map_option props (getElem i F)"

text \<open>What the last validation of an element in a run of \<open>handleSubmit\<close> reported.\<close>

definition verdict :: "visit list \<Rightarrow> nat \<Rightarrow> bool" where
  "verdict log el = valid (last (filter (\<lambda>v. target v = Some el) log))"

text \<open>
  After a run of \<open>handleSubmit\<close>, every element that was validated carries the class
  \<^verbatim>\<open>field-error\<close> exactly when its last validation failed.
\<close>

definition marksAgree :: "visit list \<Rightarrow> page \<Rightarrow> bool" where
  "marksAgree log pg =
     list_all (\<lambda>v. case target v of
                     None \<Rightarrow> True
                   | Some el \<Rightarrow> hasClass ''field-error'' el pg = (\<not> verdict log el)) log"

text \<open>The banner that \<open>submitForm\<close> builds, as the element with the identity \<open>i\<close>.\<close>

definition successBanner :: "nat \<Rightarrow> elem" where
  "successBanner i =
     Elem \<lparr>nid = i, tagName = ''div'', attrs = [], classList = [''form-success-message''],
           style = [(''background-color'', ''#28a745''), (''color'', ''white''),
                    (''padding'', ''12px 16px''), (''border-radius'', ''4px''),
                    (''margin-bottom'', ''16px''), (''animation'', ''slideIn 0.3s ease-out'')],
           elValue = [], defaultValue = [], dirty = False, textContent = successText\<rparr> []"

text \<open>Whether an element lies in the tree of the document.\<close>

definition inDocument :: "nat \<Rightarrow> page \<Rightarrow> bool" where
  "inDocument i pg =
     (case getElem (document pg) (forest pg) of None \<Rightarrow> False | Some d \<Rightarrow> i \<in> set (ids [d]))"

definition firstChild :: "nat \<Rightarrow> page \<Rightarrow> nat option" where
  "firstChild p pg =
     (case getElem p (forest pg) of
        None \<Rightarrow> None
      | Some e \<Rightarrow> (case kids e of [] \<Rightarrow> None | k # rest \<Rightarrow> Some (eid k)))"

text \<open>
  The controls that \<^verbatim>\<open>reset()\<close> of a form acts on: the resettable elements inside
  the form, those inside a form nested in it left out. And the animation of an element.
\<close>

fun ownedControls :: "elem \<Rightarrow> node list" where
  "ownedControls (Elem n ks) =
     (if tagName n = ''form'' then []
      else (if resettable n then [n] else []) @ concat (map ownedControls ks))"

definition formControls :: "nat \<Rightarrow> page \<Rightarrow> node list" where
  "formControls f pg =
     (case getElem f (forest pg) of
        None \<Rightarrow> []
      | Some e \<Rightarrow> concat (map ownedControls (kids e)))"

definition animation :: "nat \<Rightarrow> page \<Rightarrow> string option" where
  "animation i pg =
     (case getElem i (forest pg) of None \<Rightarrow> None | Some e \<Rightarrow> map_of (style (props e)) ''animation'')"

text \<open>
  The run of the loop of \<open>handleSubmit\<close> as its visits record it, from the page
  \<open>pg\<close> to the page \<open>pgv\<close>: each visit looked its descriptor up in the form on the
  page of that moment; where there was no element nothing happened, and where there
  was one, \<open>validateField\<close> ran on it, and its result and its page are those of the
  visit.
\<close>

fun validatesEach :: "FormValidator \<Rightarrow> nat \<Rightarrow> visit list \<Rightarrow> page \<Rightarrow> page \<Rightarrow> bool" where
  "validatesEach this f [] pg pgv = (pgv = pg)"
| "validatesEach this f (v # log) pg pgv =
     (target v = querySelector (selector (descriptor v)) f (forest pg) \<and>
      (case target v of
         None \<Rightarrow> valid v \<and> evaluated v = [] \<and> validatesEach this f log pg pgv
       | Some el \<Rightarrow>
           (case validateField this el pg of
              Inl err \<Rightarrow> False
            | Inr (ok, ev, pg1) \<Rightarrow>
                valid v = ok \<and> evaluated v = ev \<and> validatesEach this f log pg1 pgv)))"

text \<open>
  The markers at the end of such a run, on the page \<open>pgv\<close>: an element whose
  validation failed carries the class \<^verbatim>\<open>field-error\<close> and the only error-message
  node of its container has the message of the descriptor that \<open>findRules\<close> gave for
  it; an element whose validation passed carries no class and its container holds no
  error-message node.
\<close>

fun markersShow :: "FormValidator \<Rightarrow> visit list \<Rightarrow> page \<Rightarrow> page \<Rightarrow> bool" where
  "markersShow this [] pg pgv = True"
| "markersShow this (v # log) pg pgv =
     (case target v of
        None \<Rightarrow> markersShow this log pg pgv
      | Some el \<Rightarrow>
          (case findRules this el pg of
             Inl err \<Rightarrow> False
           | Inr None \<Rightarrow> False
           | Inr (Some fd) \<Rightarrow>
               (case validateField this el pg of
                  Inl err \<Rightarrow> False
                | Inr (ok, ev, pg1) \<Rightarrow>
                    (if valid v
                     then \<not> hasClass ''field-error'' el pgv \<and> errorNodes el pgv = []
                     else hasClass ''field-error'' el pgv \<and> errorMessages el pgv = [message fd]) \<and>
                    markersShow this log pg1 pgv)))"

text \<open>
  The elements that a run validated, and what it takes for them to lie in containers
  of their own: each has a parent element that holds at most one error-message node,
  none is an error-message node itself, and the parent elements of two of them hold no
  element in common.
\<close>

definition presentTargets :: "visit list \<Rightarrow> nat list" where
  "presentTargets log = concat (map (\<lambda>v. case target v of None \<Rightarrow> [] | Some el \<Rightarrow> [el]) log)"

definition containerIds :: "nat \<Rightarrow> page \<Rightarrow> nat list" where
  "containerIds el pg =
     (case parentElement el (forest pg) of
        None \<Rightarrow> []
      | Some p \<Rightarrow> (case getElem p (forest pg) of None \<Rightarrow> [] | Some e \<Rightarrow> ids [e]))"

definition ownContainer :: "nat \<Rightarrow> page \<Rightarrow> bool" where
  "ownContainer el pg =
     (parentElement el (forest pg) \<noteq> None \<and> length (errorNodes el pg) \<le> 1 \<and>
      \<not> hasClass ''error-message'' el pg)"

definition separated :: "nat list \<Rightarrow> page \<Rightarrow> bool" where
  "separated els pg =
     (list_all (\<lambda>el. ownContainer el pg) els \<and>
      distinct (concat (map (\<lambda>el. containerIds el pg) els)))"

text \<open>The controls whose value the script reads: inputs and text areas.\<close>

definition isTextControl :: "nat \<Rightarrow> page \<Rightarrow> bool" where
  "isTextControl i pg =
     (case getElem i (forest pg) of
        None \<Rightarrow> False
      | Some e \<Rightarrow> tagName (props e) = ''input'' \<or> tagName (props e) = ''textarea'')"


section \<open>Pages to evaluate on\<close>

definition element :: "nat \<Rightarrow> string \<Rightarrow> (string \<times> string) list \<Rightarrow> string list \<Rightarrow> jsstring \<Rightarrow> elem list \<Rightarrow> elem" where
  "element i t a c v ks =
     Elem \<lparr>nid = i, tagName = t, attrs = a, classList = c, style = [], elValue = v,
           defaultValue = [], dirty = (v \<noteq> []), textContent = []\<rparr> ks"

text \<open>
  A document whose only form carries the class \<^verbatim>\<open>contact-form\<close> and no name:
  \<^verbatim>\<open><html><form class="contact-form"><div><input type="email"></div></form></html>\<close>
\<close>

definition classFormPage :: page where
  "classFormPage =
     \<lparr>forest =
        [element 0 ''html'' [] [] []
          [element 1 ''form'' [] [''contact-form''] []
            [element 2 ''div'' [] [] []
              [element 3 ''input'' [(''type'', ''email'')] [] [] []]]]],
      document = 0, nextId = 4, listeners = [], timers = [], now = 0\<rparr>"

text \<open>
  A contact form with its four fields, each in a container of its own; the name is too
  short and the message is empty:
  \<^verbatim>\<open><html><form name="contact">
    <div><input type="email" value="a@b.co"></div>
    <div><input name="name" value="x"></div>
    <div><input type="tel" value=""></div>
    <div><textarea name="message"></textarea></div>
  </form></html>\<close>
\<close>

definition samplePage :: page where
  "samplePage =
     \<lparr>forest =
        [element 0 ''html'' [] [] []
          [element 1 ''form'' [(''name'', ''contact'')] [] []
            [element 2 ''div'' [] [] [] [element 3 ''input'' [(''type'', ''email'')] [] (js ''a@b.co'') []],
             element 4 ''div'' [] [] [] [element 5 ''input'' [(''name'', ''name'')] [] (js ''x'') []],
             element 6 ''div'' [] [] [] [element 7 ''input'' [(''type'', ''tel'')] [] [] []],
             element 8 ''div'' [] [] [] [element 9 ''textarea'' [(''name'', ''message'')] [] [] []]]]],
      document = 0, nextId = 10, listeners = [], timers = [], now = 0\<rparr>"

text \<open>The validator bound to the form of these pages, and an event not yet handled.\<close>

definition boundValidator :: FormValidator where
  "boundValidator = \<lparr>form = Some 1, fields' = Some fieldTable\<rparr>"

definition freshEvent :: event where
  "freshEvent = \<lparr>defaultPrevented = False\<rparr>"

text \<open>
  A field whose container already holds two error-message nodes:
  \<^verbatim>\<open><div><input type="email"><div class="error-message"></div><div class="error-message"></div></div>\<close>
\<close>

definition twoErrorsPage :: page where
  "twoErrorsPage =
     \<lparr>forest =
        [element 0 ''html'' [] [] []
          [element 1 ''form'' [(''name'', ''contact'')] [] []
            [element 2 ''div'' [] [] []
              [element 3 ''input'' [(''type'', ''email'')] [] [] [],
               element 4 ''div'' [] [''error-message''] [] [],
               element 5 ''div'' [] [''error-message''] [] []]]]],
      document = 0, nextId = 6, listeners = [], timers = [], now = 0\<rparr>"

text \<open>
  A field that is an error-message node itself:
  \<^verbatim>\<open><div><input type="email" class="error-message"></div>\<close>
\<close>

definition selfErrorPage :: page where
  "selfErrorPage =
     \<lparr>forest =
        [element 0 ''html'' [] [] []
          [element 1 ''form'' [(''name'', ''contact'')] [] []
            [element 2 ''div'' [] [] []
              [element 3 ''input'' [(''type'', ''email'')] [''error-message''] [] []]]]],
      document = 0, nextId = 4, listeners = [], timers = [], now = 0\<rparr>"

text \<open>
  The contact form with the name field marked: the field carries the class
  \<^verbatim>\<open>field-error\<close> and its container the error-message node with the message of
  the field.
\<close>

definition markedPage :: page where
  "markedPage =
     \<lparr>forest =
        [element 0 ''html'' [] [] []
          [element 1 ''form'' [(''name'', ''contact'')] [] []
            [element 2 ''div'' [] [] [] [element 3 ''input'' [(''type'', ''email'')] [] (js ''a@b.co'') []],
             element 4 ''div'' [] [] []
               [element 5 ''input'' [(''name'', ''name'')] [''field-error''] (js ''x'') [],
                Elem ((props (element 10 ''div'' [] [''error-message''] [] []))
                       \<lparr>textContent := js ''Name must be at least 2 characters''\<rparr>) []],
             element 6 ''div'' [] [] [] [element 7 ''input'' [(''type'', ''tel'')] [] [] []],
             element 8 ''div'' [] [] [] [element 9 ''textarea'' [(''name'', ''message'')] [] [] []]]]],
      document = 0, nextId = 11, listeners = [], timers = [], now = 0\<rparr>"



text \<open>
  A form whose fields are children of the form itself; the email address is missing and
  the name is long enough:
  \<^verbatim>\<open><html><form name="contact"><input type="email" value=""><input name="name" value="Al"></form></html>\<close>
\<close>

definition flatPage :: page where
  "flatPage =
     \<lparr>forest =
        [element 0 ''html'' [] [] []
          [element 1 ''form'' [(''name'', ''contact'')] [] []
            [element 2 ''input'' [(''type'', ''email'')] [] [] [],
             element 3 ''input'' [(''name'', ''name'')] [] (js ''Al'') []]]],
      document = 0, nextId = 4, listeners = [], timers = [], now = 0\<rparr>"

section \<open>Matching by derivatives is matching\<close>


lemma lang_AtLeastI:
  "n \<le> length ws \<Longrightarrow> set ws \<subseteq> lang r \<Longrightarrow> x = concat ws \<Longrightarrow> x \<in> lang (AtLeast n r)"
  by auto

lemma lang_AtLeastD:
  "x \<in> lang (AtLeast n r) \<Longrightarrow> \<exists>ws. x = concat ws \<and> n \<le> length ws \<and> set ws \<subseteq> lang r"
  by auto

lemma lang_CatI: "u \<in> lang r \<Longrightarrow> v \<in> lang s \<Longrightarrow> x = u @ v \<Longrightarrow> x \<in> lang (Cat r s)"
  by auto

lemma lang_CatD: "x \<in> lang (Cat r s) \<Longrightarrow> \<exists>u v. x = u @ v \<and> u \<in> lang r \<and> v \<in> lang s"
  by auto

lemma nullable_lang: "nullable r \<longleftrightarrow> [] \<in> lang r"
proof (induction r)
  case (AtLeast n r)
  show ?case
  proof
    assume "nullable (AtLeast n r)"
    then have "n = 0 \<or> [] \<in> lang r" using AtLeast by simp
    then have "set (replicate n ([]::jsstring)) \<subseteq> lang r" by auto
    then show "[] \<in> lang (AtLeast n r)"
      by (rule lang_AtLeastI[rotated]) simp_all
  next
    assume "[] \<in> lang (AtLeast n r)"
    then obtain ws where ws: "[] = concat ws" "n \<le> length ws" "set ws \<subseteq> lang r"
      using lang_AtLeastD by blast
    show "nullable (AtLeast n r)"
    proof (cases ws)
      case Nil
      then show ?thesis using ws by simp
    next
      case (Cons w ws')
      then have "w = []" "w \<in> lang r" using ws by auto
      then show ?thesis using AtLeast by simp
    qed
  qed
qed auto

lemma concat_Cons_split:
  assumes "concat ws = c # w" "set ws \<subseteq> L" "[] \<notin> L"
  shows "\<exists>u rest. ws = (c # u) # rest \<and> w = u @ concat rest"
proof (cases ws)
  case Nil
  then show ?thesis using assms by simp
next
  case (Cons x rest)
  then have "x \<noteq> []" using assms by auto
  then obtain a u where "x = a # u" by (cases x) auto
  then show ?thesis using Cons assms by auto
qed

lemma concat_Cons_drop:
  assumes "concat ws = c # w" "set ws \<subseteq> L"
  shows "\<exists>u rest. c # u \<in> L \<and> w = u @ concat rest \<and> set rest \<subseteq> L"
  using assms
proof (induction ws)
  case Nil
  then show ?case by simp
next
  case (Cons x ws)
  show ?case
  proof (cases x)
    case Nil
    then show ?thesis using Cons by auto
  next
    case (Cons a u)
    then have "c # u \<in> L \<and> w = u @ concat ws \<and> set ws \<subseteq> L"
      using Cons.prems by auto
    then show ?thesis by blast
  qed
qed

lemma deriv_AtLeast_lang:
  "c # w \<in> lang (AtLeast n r) \<longleftrightarrow>
   (\<exists>u v. w = u @ v \<and> c # u \<in> lang r \<and> v \<in> lang (AtLeast (n - 1) r))"
proof
  assume "c # w \<in> lang (AtLeast n r)"
  then obtain ws where ws: "c # w = concat ws" "n \<le> length ws" "set ws \<subseteq> lang r"
    using lang_AtLeastD by blast
  show "\<exists>u v. w = u @ v \<and> c # u \<in> lang r \<and> v \<in> lang (AtLeast (n - 1) r)"
  proof (cases "[] \<in> lang r")
    case True
    obtain u rest where ur: "c # u \<in> lang r" "w = u @ concat rest" "set rest \<subseteq> lang r"
      using concat_Cons_drop[OF ws(1)[symmetric] ws(3)] by blast
    have "concat rest \<in> lang (AtLeast (n - 1) r)"
      by (rule lang_AtLeastI[where ws = "replicate n [] @ rest"]) (use True ur in auto)
    then show ?thesis using ur by blast
  next
    case False
    obtain u rest where ur: "ws = (c # u) # rest" "w = u @ concat rest"
      using concat_Cons_split[OF ws(1)[symmetric] ws(3) False] by blast
    then have "c # u \<in> lang r" "n - 1 \<le> length rest" "set rest \<subseteq> lang r" using ws by auto
    then have "concat rest \<in> lang (AtLeast (n - 1) r)" by (auto intro: lang_AtLeastI)
    then show ?thesis using ur \<open>c # u \<in> lang r\<close> by blast
  qed
next
  assume "\<exists>u v. w = u @ v \<and> c # u \<in> lang r \<and> v \<in> lang (AtLeast (n - 1) r)"
  then obtain u v where uv: "w = u @ v" "c # u \<in> lang r" "v \<in> lang (AtLeast (n - 1) r)"
    by blast
  then obtain vs where vs: "v = concat vs" "n - 1 \<le> length vs" "set vs \<subseteq> lang r"
    using lang_AtLeastD by blast
  show "c # w \<in> lang (AtLeast n r)"
    by (rule lang_AtLeastI[where ws = "(c # u) # vs"]) (use uv vs in auto)
qed





lemma lang_Cat_Cons:
  "c # w \<in> lang (Cat r s) \<longleftrightarrow>
     (\<exists>u v. w = u @ v \<and> c # u \<in> lang r \<and> v \<in> lang s) \<or> ([] \<in> lang r \<and> c # w \<in> lang s)"
proof
  assume "c # w \<in> lang (Cat r s)"
  then obtain u v where uv: "c # w = u @ v" "u \<in> lang r" "v \<in> lang s"
    using lang_CatD by blast
  show "(\<exists>u v. w = u @ v \<and> c # u \<in> lang r \<and> v \<in> lang s) \<or> ([] \<in> lang r \<and> c # w \<in> lang s)"
  proof (cases u)
    case Nil
    then show ?thesis using uv by simp
  next
    case (Cons a u')
    then have "w = u' @ v" "c # u' \<in> lang r" using uv by simp_all
    then show ?thesis using uv(3) by blast
  qed
next
  assume "(\<exists>u v. w = u @ v \<and> c # u \<in> lang r \<and> v \<in> lang s) \<or> ([] \<in> lang r \<and> c # w \<in> lang s)"
  then show "c # w \<in> lang (Cat r s)"
  proof
    assume "\<exists>u v. w = u @ v \<and> c # u \<in> lang r \<and> v \<in> lang s"
    then obtain u v where "w = u @ v" "c # u \<in> lang r" "v \<in> lang s" by blast
    then show ?thesis by (intro lang_CatI[where u = "c # u" and v = v]) simp_all
  next
    assume "[] \<in> lang r \<and> c # w \<in> lang s"
    then show ?thesis by (intro lang_CatI[where u = "[]" and v = "c # w"]) simp_all
  qed
qed

lemma lang_Cat_iff: "x \<in> lang (Cat r s) \<longleftrightarrow> (\<exists>u v. x = u @ v \<and> u \<in> lang r \<and> v \<in> lang s)"
  by auto

lemma deriv_lang: "w \<in> lang (deriv c r) \<longleftrightarrow> c # w \<in> lang r"
proof (induction r arbitrary: w)
  case Never
  show ?case by simp
next
  case Empty
  show ?case by simp
next
  case (OneOf ks)
  show ?case by simp
next
  case (NoneOf ks)
  show ?case by simp
next
  case (Alt r s)
  then show ?case by simp
next
  case (Cat r s)
  have "w \<in> lang (deriv c (Cat r s)) \<longleftrightarrow>
        (\<exists>u v. w = u @ v \<and> u \<in> lang (deriv c r) \<and> v \<in> lang s) \<or> (nullable r \<and> w \<in> lang (deriv c s))"
    by (cases "nullable r") (simp_all only: deriv.simps if_True if_False lang.simps(6) Un_iff lang_Cat_iff simp_thms)
  then show ?case
    unfolding lang_Cat_Cons nullable_lang using Cat by simp
next
  case (AtLeast n r)
  have "w \<in> lang (deriv c (AtLeast n r)) \<longleftrightarrow>
        (\<exists>u v. w = u @ v \<and> u \<in> lang (deriv c r) \<and> v \<in> lang (AtLeast (n - 1) r))"
    by (simp only: deriv.simps lang_Cat_iff)
  then show ?case unfolding deriv_AtLeast_lang using AtLeast by simp
qed

lemma matches_lang: "matches r s \<longleftrightarrow> s \<in> lang r"
  by (induction s arbitrary: r) (simp_all add: nullable_lang deriv_lang del: lang.simps)




lemma concat_singletons:
  "set ws \<subseteq> {[c] | c. P c} \<Longrightarrow> length (concat ws) = length ws \<and> list_all P (concat ws)"
  by (induction ws) auto

lemma lang_AtLeast_OneOf:
  "lang (AtLeast n (OneOf ks)) = {w. n \<le> length w \<and> list_all (\<lambda>c. list_ex (\<lambda>k. clsHas k c) ks) w}"
proof (intro set_eqI iffI)
  fix x assume "x \<in> lang (AtLeast n (OneOf ks))"
  then obtain ws where ws: "x = concat ws" "n \<le> length ws" "set ws \<subseteq> lang (OneOf ks)"
    using lang_AtLeastD by blast
  then have "set ws \<subseteq> {[c] | c. list_ex (\<lambda>k. clsHas k c) ks}" by simp
  from concat_singletons[OF this] ws
  show "x \<in> {w. n \<le> length w \<and> list_all (\<lambda>c. list_ex (\<lambda>k. clsHas k c) ks) w}" by simp
next
  fix x assume "x \<in> {w. n \<le> length w \<and> list_all (\<lambda>c. list_ex (\<lambda>k. clsHas k c) ks) w}"
  then have x: "n \<le> length x" "list_all (\<lambda>c. list_ex (\<lambda>k. clsHas k c) ks) x" by simp_all
  show "x \<in> lang (AtLeast n (OneOf ks))"
  proof (rule lang_AtLeastI[where ws = "map (\<lambda>c. [c]) x"])
    show "n \<le> length (map (\<lambda>c. [c]) x)" using x by simp
    show "set (map (\<lambda>c. [c]) x) \<subseteq> lang (OneOf ks)" using x(2) by (auto simp: list_all_iff)
    show "x = concat (map (\<lambda>c. [c]) x)" by (induction x) simp_all
  qed
qed

lemma lang_AtLeast_NoneOf:
  "lang (AtLeast n (NoneOf ks)) = {w. n \<le> length w \<and> list_all (\<lambda>c. \<not> list_ex (\<lambda>k. clsHas k c) ks) w}"
proof (intro set_eqI iffI)
  fix x assume "x \<in> lang (AtLeast n (NoneOf ks))"
  then obtain ws where ws: "x = concat ws" "n \<le> length ws" "set ws \<subseteq> lang (NoneOf ks)"
    using lang_AtLeastD by blast
  then have "set ws \<subseteq> {[c] | c. \<not> list_ex (\<lambda>k. clsHas k c) ks}" by simp
  from concat_singletons[OF this] ws
  show "x \<in> {w. n \<le> length w \<and> list_all (\<lambda>c. \<not> list_ex (\<lambda>k. clsHas k c) ks) w}" by simp
next
  fix x assume "x \<in> {w. n \<le> length w \<and> list_all (\<lambda>c. \<not> list_ex (\<lambda>k. clsHas k c) ks) w}"
  then have x: "n \<le> length x" "list_all (\<lambda>c. \<not> list_ex (\<lambda>k. clsHas k c) ks) x" by simp_all
  show "x \<in> lang (AtLeast n (NoneOf ks))"
  proof (rule lang_AtLeastI[where ws = "map (\<lambda>c. [c]) x"])
    show "n \<le> length (map (\<lambda>c. [c]) x)" using x by simp
    show "set (map (\<lambda>c. [c]) x) \<subseteq> lang (NoneOf ks)" using x(2) by (auto simp: list_all_iff)
    show "x = concat (map (\<lambda>c. [c]) x)" by (induction x) simp_all
  qed
qed

lemma test_phone:
  "test phoneRegex v \<longleftrightarrow>
     7 \<le> length v \<and>
     list_all (\<lambda>c. isDigit c \<or> isWhiteSpace c \<or> c = 0x2D \<or> c = 0x2B \<or> c = 0x28 \<or> c = 0x29) v"
  unfolding test_def matches_lang phoneRegex_def lang_AtLeast_OneOf
  by simp

lemma lang_literal: "lang (OneOf [ClsChar d]) = {[d]}"
  by auto

lemma localChar_part:
  "lang (AtLeast 1 (NoneOf [ClsSpace, ClsChar 0x40])) = {w. w \<noteq> [] \<and> list_all localChar w}"
proof -
  have "localChar = (\<lambda>c. \<not> isWhiteSpace c \<and> c \<noteq> 0x40)"
    by (simp add: fun_eq_iff localChar_def)
  moreover have "\<And>w::jsstring. (1 \<le> length w) = (w \<noteq> [])"
    by (simp add: Suc_le_eq)
  ultimately show ?thesis unfolding lang_AtLeast_NoneOf by simp
qed

lemma test_email:
  "test emailRegex v \<longleftrightarrow>
     (\<exists>l d e. v = l @ [0x40] @ d @ [0x2E] @ e \<and>
        l \<noteq> [] \<and> list_all localChar l \<and> d \<noteq> [] \<and> list_all localChar d \<and>
        e \<noteq> [] \<and> list_all localChar e)"
  (is "?L \<longleftrightarrow> ?R")
proof -
  let ?P = "AtLeast 1 (NoneOf [ClsSpace, ClsChar 0x40])"
  have L: "?L \<longleftrightarrow> v \<in> lang (Cat ?P (Cat (OneOf [ClsChar 0x40]) (Cat ?P (Cat (OneOf [ClsChar 0x2E]) ?P))))"
    by (simp only: test_def matches_lang emailRegex_def)
  show ?thesis
  proof
    assume ?L
    then obtain l r1 where 1: "v = l @ r1" "l \<in> lang ?P"
        "r1 \<in> lang (Cat (OneOf [ClsChar 0x40]) (Cat ?P (Cat (OneOf [ClsChar 0x2E]) ?P)))"
      unfolding L using lang_CatD by blast
    then obtain a r2 where 2: "r1 = a @ r2" "a \<in> lang (OneOf [ClsChar 0x40])"
        "r2 \<in> lang (Cat ?P (Cat (OneOf [ClsChar 0x2E]) ?P))"
      using lang_CatD by blast
    then obtain d r3 where 3: "r2 = d @ r3" "d \<in> lang ?P" "r3 \<in> lang (Cat (OneOf [ClsChar 0x2E]) ?P)"
      using lang_CatD by blast
    then obtain b e where 4: "r3 = b @ e" "b \<in> lang (OneOf [ClsChar 0x2E])" "e \<in> lang ?P"
      using lang_CatD by blast
    have "a = [0x40]" "b = [0x2E]" using 2(2) 4(2) by (simp_all only: lang_literal singleton_iff)
    moreover have "l \<noteq> [] \<and> list_all localChar l" "d \<noteq> [] \<and> list_all localChar d"
        "e \<noteq> [] \<and> list_all localChar e"
      using 1(2) 3(2) 4(3) unfolding localChar_part mem_Collect_eq by blast+
    ultimately have "v = l @ [0x40] @ d @ [0x2E] @ e \<and>
        l \<noteq> [] \<and> list_all localChar l \<and> d \<noteq> [] \<and> list_all localChar d \<and>
        e \<noteq> [] \<and> list_all localChar e"
      using 1(1) 2(1) 3(1) 4(1) by simp
    then show ?R by blast
  next
    assume ?R
    then obtain l d e where v: "v = l @ [0x40] @ d @ [0x2E] @ e"
      and l: "l \<noteq> [] \<and> list_all localChar l" and d: "d \<noteq> [] \<and> list_all localChar d"
      and e: "e \<noteq> [] \<and> list_all localChar e"
      by blast
    have pl: "l \<in> lang ?P" and pd: "d \<in> lang ?P" and pe: "e \<in> lang ?P"
      using l d e unfolding localChar_part mem_Collect_eq by blast+
    have a: "[0x40] \<in> lang (OneOf [ClsChar 0x40])" and b: "[0x2E] \<in> lang (OneOf [ClsChar 0x2E])"
      by (simp_all only: lang_literal singleton_iff)
    have "[0x2E] @ e \<in> lang (Cat (OneOf [ClsChar 0x2E]) ?P)"
      by (rule lang_CatI[OF b pe refl])
    then have "d @ [0x2E] @ e \<in> lang (Cat ?P (Cat (OneOf [ClsChar 0x2E]) ?P))"
      by (rule lang_CatI[OF pd _ refl])
    then have "[0x40] @ d @ [0x2E] @ e \<in> lang (Cat (OneOf [ClsChar 0x40]) (Cat ?P (Cat (OneOf [ClsChar 0x2E]) ?P)))"
      by (rule lang_CatI[OF a _ refl])
    then have "l @ [0x40] @ d @ [0x2E] @ e \<in> lang (Cat ?P (Cat (OneOf [ClsChar 0x40]) (Cat ?P (Cat (OneOf [ClsChar 0x2E]) ?P))))"
      by (rule lang_CatI[OF pl _ refl])
    then show ?L using L v by blast
  qed
qed




lemma digit_char:
  assumes "k < 10"
  shows "isDigit (of_nat (48 + k))" "digitVal (of_nat (48 + k)) = int k"
    "\<not> isWhiteSpace (of_nat (48 + k))" "(of_nat (48 + k) :: jschar) \<noteq> 0x3A"
    "(of_nat (48 + k) :: jschar) \<noteq> 0x2B" "(of_nat (48 + k) :: jschar) \<noteq> 0x2D"
proof -
  have "k = 0 \<or> k = 1 \<or> k = 2 \<or> k = 3 \<or> k = 4 \<or> k = 5 \<or> k = 6 \<or> k = 7 \<or> k = 8 \<or> k = 9"
    using assms by arith
  then show "isDigit (of_nat (48 + k))" "digitVal (of_nat (48 + k)) = int k"
    "\<not> isWhiteSpace (of_nat (48 + k))" "(of_nat (48 + k) :: jschar) \<noteq> 0x3A"
    "(of_nat (48 + k) :: jschar) \<noteq> 0x2B" "(of_nat (48 + k) :: jschar) \<noteq> 0x2D"
    by (auto simp: isDigit_def digitVal_def isWhiteSpace_def)
qed

lemma decimal_digits: "decimal n \<noteq> [] \<and> list_all isDigit (decimal n)"
proof (induction n rule: decimal.induct)
  case (1 n)
  show ?case
  proof (cases "n < 10")
    case True
    then show ?thesis using digit_char(1)[of n] by (simp add: decimal.simps[of n])
  next
    case False
    then show ?thesis using 1 digit_char(1)[of "n mod 10"] by (simp add: decimal.simps[of n])
  qed
qed

lemma digitsVal_snoc: "digitsVal (ds @ [c]) = 10 * digitsVal ds + digitVal c"
  by (simp add: digitsVal_def)

lemma digitsVal_decimal: "digitsVal (decimal n) = int n"
proof (induction n rule: decimal.induct)
  case (1 n)
  show ?case
  proof (cases "n < 10")
    case True
    then show ?thesis using digit_char(2)[of n] by (simp add: decimal.simps[of n] digitsVal_def)
  next
    case False
    have "digitsVal (decimal n) = 10 * digitsVal (decimal (n div 10)) + digitVal (of_nat (48 + n mod 10))"
      using False by (simp add: decimal.simps[of n] digitsVal_snoc)
    also have "\<dots> = 10 * int (n div 10) + int (n mod 10)"
      using 1 False digit_char(2)[of "n mod 10"] by simp
    also have "\<dots> = int n" by presburger
    finally show ?thesis .
  qed
qed

lemma isDigit_plain: "isDigit c \<Longrightarrow> \<not> isWhiteSpace c \<and> c \<noteq> 0x3A \<and> c \<noteq> 0x2B \<and> c \<noteq> 0x2D"
  by (auto simp: isDigit_def isWhiteSpace_def word_le_nat_alt)

lemma takeWhile_all: "list_all P xs \<Longrightarrow> takeWhile P xs = xs"
  by (induction xs) auto

lemma parseInt10_decimal: "parseInt10 (Some (decimal n)) = Some (int n)"
proof -
  obtain c cs where d: "decimal n = c # cs" using decimal_digits[of n] by (cases "decimal n") auto
  then have c: "isDigit c" and all: "list_all isDigit (c # cs)" using decimal_digits[of n] by auto
  have tw: "takeWhile isDigit (c # cs) = c # cs" by (rule takeWhile_all[OF all])
  show ?thesis
    using isDigit_plain[OF c] digitsVal_decimal[of n]
    by (simp add: parseInt10_def ToString_def d Let_def tw del: takeWhile.simps)
qed

lemma split_no_sep: "sep \<notin> set s \<Longrightarrow> split sep s = [s]"
  by (induction s) auto

lemma split_prefix: "sep \<notin> set a \<Longrightarrow> split sep (a @ sep # b) = a # split sep b"
  by (induction a) auto

lemma startsWith_append: "startsWith p q \<Longrightarrow> startsWith (p @ x) q"
  by (induction p q rule: startsWith.induct) auto

lemma minLength_rule:
  "checkRule v (js ''minLength:'' @ decimal n) \<longleftrightarrow> n \<le> length v"
proof -
  have nocolon: "0x3A \<notin> set (decimal n)"
    using decimal_digits[of n] isDigit_plain by (auto simp: list_all_iff)
  have "js ''minLength:'' @ decimal n = js ''minLength'' @ 0x3A # decimal n"
    by (simp add: js_def)
  moreover have "0x3A \<notin> set (js ''minLength'')" by (simp add: js_def)
  ultimately have sp: "split 0x3A (js ''minLength:'' @ decimal n) = [js ''minLength'', decimal n]"
    using split_prefix[of "0x3A" "js ''minLength''" "decimal n"] split_no_sep[OF nocolon] by simp
  have ne: "js ''minLength:'' @ decimal n \<noteq> js ''required''" by (simp add: js_def)
  have sw: "startsWith (js ''minLength:'' @ decimal n) (js ''minLength'')"
    by (rule startsWith_append) (simp add: js_def)
  show ?thesis
    unfolding checkRule_def using ne sw by (simp add: sp parseInt10_decimal)
qed

lemma checkRule_email: "checkRule v (js ''email'') = test emailRegex v"
  by (simp add: checkRule_def js_def)

lemma checkRule_phone: "checkRule v (js ''phone'') = (test phoneRegex v \<or> v = [])"
  by (simp add: checkRule_def js_def)


section \<open>The rules of \<open>checkRule\<close>\<close>

lemma count_list_localChar: "list_all localChar w \<Longrightarrow> count_list w 0x40 = 0"
  by (induction w) (auto simp: localChar_def)

lemma localChar_no_space: "list_all localChar w \<Longrightarrow> list_all (\<lambda>c. \<not> isWhiteSpace c) w"
  by (induction w) (auto simp: localChar_def)

lemma localChar_from_parts:
  "list_all (\<lambda>c. \<not> isWhiteSpace c) w \<Longrightarrow> count_list w 0x40 = 0 \<Longrightarrow> list_all localChar w"
  by (induction w) (auto simp: localChar_def split: if_splits)

lemma email_pattern_parts:
  "test emailRegex v \<longleftrightarrow>
     list_all (\<lambda>c. \<not> isWhiteSpace c) v \<and> count_list v 0x40 = 1 \<and>
     (\<exists>l d e. v = l @ [0x40] @ d @ [0x2E] @ e \<and> l \<noteq> [] \<and> d \<noteq> [] \<and> e \<noteq> [])"
  (is "?L \<longleftrightarrow> ?R")
proof
  assume ?L
  then obtain l d e where v: "v = l @ [0x40] @ d @ [0x2E] @ e"
    and ne: "l \<noteq> []" "d \<noteq> []" "e \<noteq> []"
    and lc: "list_all localChar l" "list_all localChar d" "list_all localChar e"
    unfolding test_email by blast
  have "\<not> isWhiteSpace 0x40" "\<not> isWhiteSpace 0x2E" by (simp_all add: isWhiteSpace_def)
  then have "list_all (\<lambda>c. \<not> isWhiteSpace c) v"
    using lc[THEN localChar_no_space] by (simp add: v)
  moreover have "count_list v 0x40 = 1"
    using lc[THEN count_list_localChar] by (simp add: v)
  ultimately show ?R using v ne by blast
next
  assume r: ?R
  then obtain l d e where v: "v = l @ [0x40] @ d @ [0x2E] @ e"
    and ne: "l \<noteq> []" "d \<noteq> []" "e \<noteq> []"
    by blast
  have "count_list v 0x40 = 1" using r by blast
  then have c0: "count_list l 0x40 = 0" "count_list d 0x40 = 0" "count_list e 0x40 = 0"
    by (simp_all add: v)
  have "list_all (\<lambda>c. \<not> isWhiteSpace c) v" using r by blast
  then have "list_all (\<lambda>c. \<not> isWhiteSpace c) l" "list_all (\<lambda>c. \<not> isWhiteSpace c) d"
    "list_all (\<lambda>c. \<not> isWhiteSpace c) e"
    by (simp_all add: v)
  then have "list_all localChar l" "list_all localChar d" "list_all localChar e"
    using c0 by (simp_all add: localChar_from_parts)
  then show ?L unfolding test_email using v ne by blast
qed

text \<open>
  C4, as the specification words it, fails: \<^verbatim>\<open>"a b@c.d"\<close> has exactly one \<open>@\<close>,
  a non-whitespace character on each side of it and a dot after it with non-whitespace
  on both sides, and the pattern rejects it because of the space.
\<close>

theorem email_as_worded_counterexample:
  "emailAsWorded (js ''a b@c.d'') \<and> \<not> checkRule (js ''a b@c.d'') (js ''email'')"
proof -
  have "js ''a b@c.d'' = js ''a b'' @ [0x40] @ js ''c.d''" "js ''c.d'' = js ''c'' @ [0x2E] @ js ''d''"
    by (simp_all add: js_def)
  moreover have "list_ex (\<lambda>c. \<not> isWhiteSpace c) (js ''a b'')"
    "list_ex (\<lambda>c. \<not> isWhiteSpace c) (js ''c.d'')"
    "list_ex (\<lambda>c. \<not> isWhiteSpace c) (js ''c'')" "list_ex (\<lambda>c. \<not> isWhiteSpace c) (js ''d'')"
    by (simp_all add: js_def isWhiteSpace_def)
  moreover have "count_list (js ''a b@c.d'') 0x40 = 1" by (simp add: js_def)
  ultimately have "emailAsWorded (js ''a b@c.d'')" unfolding emailAsWorded_def by blast
  moreover have "\<not> checkRule (js ''a b@c.d'') (js ''email'')"
    unfolding checkRule_email test_def emailRegex_def by (simp add: js_def isWhiteSpace_def)
  ultimately show ?thesis by blast
qed

text \<open>
  C4, amended: \<open>checkRule\<close> with the rule \<^verbatim>\<open>email\<close> passes exactly the values that
  contain no white space at all and exactly one \<open>@\<close>, with at least one character
  before the \<open>@\<close>, and after it a dot with at least one character between the \<open>@\<close>
  and the dot and at least one character after the dot. So \<^verbatim>\<open>"a@b.co"\<close> passes, and
  \<^verbatim>\<open>"a@b"\<close>, \<^verbatim>\<open>"@b.co"\<close> and the empty string fail.
\<close>

theorem email_rule_pattern:
  "(checkRule v (js ''email'') \<longleftrightarrow>
      list_all (\<lambda>c. \<not> isWhiteSpace c) v \<and> count_list v 0x40 = 1 \<and>
      (\<exists>l d e. v = l @ [0x40] @ d @ [0x2E] @ e \<and> l \<noteq> [] \<and> d \<noteq> [] \<and> e \<noteq> [])) \<and>
   checkRule (js ''a@b.co'') (js ''email'') \<and>
   \<not> checkRule (js ''a@b'') (js ''email'') \<and>
   \<not> checkRule (js ''@b.co'') (js ''email'') \<and>
   \<not> checkRule (js '''') (js ''email'')"
proof -
  have "checkRule (js ''a@b.co'') (js ''email'')"
    unfolding checkRule_email test_def emailRegex_def by (simp add: js_def isWhiteSpace_def)
  moreover have "\<not> checkRule (js ''a@b'') (js ''email'')"
    unfolding checkRule_email test_def emailRegex_def by (simp add: js_def isWhiteSpace_def)
  moreover have "\<not> checkRule (js ''@b.co'') (js ''email'')"
    unfolding checkRule_email test_def emailRegex_def by (simp add: js_def isWhiteSpace_def)
  moreover have "\<not> checkRule (js '''') (js ''email'')"
    unfolding checkRule_email test_def emailRegex_def by (simp add: js_def isWhiteSpace_def)
  ultimately show ?thesis
    unfolding checkRule_email[of v] email_pattern_parts[of v] by blast
qed

text \<open>
  C5: \<open>checkRule\<close> with the rule \<^verbatim>\<open>phone\<close> passes exactly the empty value and the
  values of at least 7 code units that are all digits, white space, hyphens, plus signs
  or parentheses. The empty string and \<^verbatim>\<open>"1234567"\<close> pass; \<^verbatim>\<open>"12345"\<close> and
  \<^verbatim>\<open>"abc-defg"\<close> fail.
\<close>

theorem phone_rule_pattern:
  "(checkRule v (js ''phone'') \<longleftrightarrow>
      v = [] \<or>
      (7 \<le> length v \<and>
       list_all (\<lambda>c. isDigit c \<or> isWhiteSpace c \<or> c = 0x2D \<or> c = 0x2B \<or> c = 0x28 \<or> c = 0x29) v)) \<and>
   checkRule (js '''') (js ''phone'') \<and>
   checkRule (js ''1234567'') (js ''phone'') \<and>
   \<not> checkRule (js ''12345'') (js ''phone'') \<and>
   \<not> checkRule (js ''abc-defg'') (js ''phone'')"
proof -
  have "checkRule (js '''') (js ''phone'')"
    unfolding checkRule_phone by (simp add: js_def)
  moreover have "checkRule (js ''1234567'') (js ''phone'')"
    unfolding checkRule_phone test_def phoneRegex_def by (simp add: js_def isWhiteSpace_def isDigit_def)
  moreover have "\<not> checkRule (js ''12345'') (js ''phone'')"
    unfolding checkRule_phone test_def phoneRegex_def by (simp add: js_def isWhiteSpace_def isDigit_def)
  moreover have "\<not> checkRule (js ''abc-defg'') (js ''phone'')"
    unfolding checkRule_phone test_def phoneRegex_def by (simp add: js_def isWhiteSpace_def isDigit_def)
  ultimately show ?thesis
    unfolding checkRule_phone[of v] test_phone[of v] by blast
qed

text \<open>
  C6: for every value and every natural number \<open>N\<close>, \<open>checkRule\<close> with the rule
  \<^verbatim>\<open>minLength:N\<close> passes exactly when the length of the value, untrimmed, is at
  least \<open>N\<close>.
\<close>

theorem minLength_rule_length:
  "checkRule v (js ''minLength:'' @ decimal n) \<longleftrightarrow> n \<le> length v"
  by (rule minLength_rule)

text \<open>
  C7, as stated, fails: the specifier \<^verbatim>\<open>minLength\<close> with no parameter is none of
  \<^verbatim>\<open>required\<close>, \<^verbatim>\<open>minLength:N\<close>, \<^verbatim>\<open>email\<close> and \<^verbatim>\<open>phone\<close>, and it is
  rejected for every value: it starts with \<^verbatim>\<open>minLength\<close>, its parameter parses to
  \<^verbatim>\<open>NaN\<close>, and a comparison with \<^verbatim>\<open>NaN\<close> is false.
\<close>

theorem permissive_default_counterexample:
  "js ''minLength'' \<noteq> js ''required'' \<and> \<not> minLengthForm (js ''minLength'') \<and>
   js ''minLength'' \<noteq> js ''email'' \<and> js ''minLength'' \<noteq> js ''phone'' \<and>
   \<not> checkRule (js ''hello'') (js ''minLength'')"
proof -
  have "\<not> minLengthForm (js ''minLength'')"
  proof
    assume "minLengthForm (js ''minLength'')"
    then obtain n where "js ''minLength'' = js ''minLength:'' @ decimal n"
      unfolding minLengthForm_def by blast
    then have "length (js ''minLength'') = length (js ''minLength:'' @ decimal n)" by simp
    then show False by (simp add: js_def)
  qed
  moreover have "\<not> checkRule (js ''hello'') (js ''minLength'')"
    by (simp add: checkRule_def js_def parseInt10_def ToString_def isWhiteSpace_def isDigit_def)
  ultimately show ?thesis by (simp add: js_def)
qed

text \<open>
  C7, amended: for every value, \<open>checkRule\<close> returns true for every rule specifier that
  is not \<^verbatim>\<open>required\<close>, does not start with \<^verbatim>\<open>minLength\<close>, is not \<^verbatim>\<open>email\<close>
  and is not \<^verbatim>\<open>phone\<close>. \<open>checkRule\<close> raises for no pair of strings: it is a total
  function into the booleans.
\<close>

theorem permissive_default:
  "rule \<noteq> js ''required'' \<Longrightarrow> \<not> startsWith rule (js ''minLength'') \<Longrightarrow>
   rule \<noteq> js ''email'' \<Longrightarrow> rule \<noteq> js ''phone'' \<Longrightarrow> checkRule v rule"
  by (simp add: checkRule_def)

theorem permissive_default_witness:
  "js ''url'' \<noteq> js ''required'' \<and> \<not> startsWith (js ''url'') (js ''minLength'') \<and>
   js ''url'' \<noteq> js ''email'' \<and> js ''url'' \<noteq> js ''phone'' \<and>
   checkRule (js ''not a url'') (js ''url'')"
proof -
  have h: "js ''url'' \<noteq> js ''required''" "\<not> startsWith (js ''url'') (js ''minLength'')"
    "js ''url'' \<noteq> js ''email''" "js ''url'' \<noteq> js ''phone''"
    by (simp_all add: js_def)
  show ?thesis using h permissive_default[OF h, of "js ''not a url''"] by blast
qed



section \<open>Matching a selector\<close>

lemma asciiLower_lower [simp]:
    "asciiLower CHR ''a'' = CHR ''a''"
    "asciiLower CHR ''b'' = CHR ''b''"
    "asciiLower CHR ''c'' = CHR ''c''"
    "asciiLower CHR ''d'' = CHR ''d''"
    "asciiLower CHR ''e'' = CHR ''e''"
    "asciiLower CHR ''f'' = CHR ''f''"
    "asciiLower CHR ''g'' = CHR ''g''"
    "asciiLower CHR ''h'' = CHR ''h''"
    "asciiLower CHR ''i'' = CHR ''i''"
    "asciiLower CHR ''j'' = CHR ''j''"
    "asciiLower CHR ''k'' = CHR ''k''"
    "asciiLower CHR ''l'' = CHR ''l''"
    "asciiLower CHR ''m'' = CHR ''m''"
    "asciiLower CHR ''n'' = CHR ''n''"
    "asciiLower CHR ''o'' = CHR ''o''"
    "asciiLower CHR ''p'' = CHR ''p''"
    "asciiLower CHR ''q'' = CHR ''q''"
    "asciiLower CHR ''r'' = CHR ''r''"
    "asciiLower CHR ''s'' = CHR ''s''"
    "asciiLower CHR ''t'' = CHR ''t''"
    "asciiLower CHR ''u'' = CHR ''u''"
    "asciiLower CHR ''v'' = CHR ''v''"
    "asciiLower CHR ''w'' = CHR ''w''"
    "asciiLower CHR ''x'' = CHR ''x''"
    "asciiLower CHR ''y'' = CHR ''y''"
    "asciiLower CHR ''z'' = CHR ''z''"
  by (simp_all add: asciiLower_def)

lemma asciiLower_upper [simp]:
    "asciiLower CHR ''A'' = CHR ''a''"
    "asciiLower CHR ''B'' = CHR ''b''"
    "asciiLower CHR ''C'' = CHR ''c''"
    "asciiLower CHR ''D'' = CHR ''d''"
    "asciiLower CHR ''E'' = CHR ''e''"
    "asciiLower CHR ''F'' = CHR ''f''"
    "asciiLower CHR ''G'' = CHR ''g''"
    "asciiLower CHR ''H'' = CHR ''h''"
    "asciiLower CHR ''I'' = CHR ''i''"
    "asciiLower CHR ''J'' = CHR ''j''"
    "asciiLower CHR ''K'' = CHR ''k''"
    "asciiLower CHR ''L'' = CHR ''l''"
    "asciiLower CHR ''M'' = CHR ''m''"
    "asciiLower CHR ''N'' = CHR ''n''"
    "asciiLower CHR ''O'' = CHR ''o''"
    "asciiLower CHR ''P'' = CHR ''p''"
    "asciiLower CHR ''Q'' = CHR ''q''"
    "asciiLower CHR ''R'' = CHR ''r''"
    "asciiLower CHR ''S'' = CHR ''s''"
    "asciiLower CHR ''T'' = CHR ''t''"
    "asciiLower CHR ''U'' = CHR ''u''"
    "asciiLower CHR ''V'' = CHR ''v''"
    "asciiLower CHR ''W'' = CHR ''w''"
    "asciiLower CHR ''X'' = CHR ''x''"
    "asciiLower CHR ''Y'' = CHR ''y''"
    "asciiLower CHR ''Z'' = CHR ''z''"
  by (simp_all add: asciiLower_def)

lemma asciiLower_hyphen [simp]: "asciiLower CHR ''-'' = CHR ''-''"
  by (simp add: asciiLower_def)

lemma type_caseInsensitive [simp]:
  "''type'' \<in> set caseInsensitiveAttrs" "''name'' \<notin> set caseInsensitiveAttrs"
  by (simp_all add: caseInsensitiveAttrs_def)

section \<open>Trees of elements\<close>

subsection \<open>Forests\<close>

lemma forest_induct [case_names Nil Tree]:
  assumes "Q []" and "\<And>n ks F. Q ks \<Longrightarrow> Q F \<Longrightarrow> Q (Elem n ks # F)"
  shows "Q F"
proof (induction F rule: measure_induct_rule[where f = "size_list size"])
  case (less F)
  show ?case
  proof (cases F)
    case Nil
    then show ?thesis using assms(1) by simp
  next
    case (Cons e G)
    obtain n ks where e: "e = Elem n ks" by (cases e)
    have "size_list size ks < size_list size F" "size_list size G < size_list size F"
      using Cons e by simp_all
    then show ?thesis using less assms(2) Cons e by blast
  qed
qed

lemma allNodes_Nil [simp]: "allNodes [] = []"
  by (simp add: allNodes_def)

lemma allNodes_Cons [simp]: "allNodes (Elem n ks # F) = Elem n ks # allNodes ks @ allNodes F"
  by (simp add: allNodes_def)

lemma allNodes_append [simp]: "allNodes (F @ G) = allNodes F @ allNodes G"
  by (simp add: allNodes_def)

lemma nodes_allNodes: "nodes e = allNodes [e]"
  by (cases e) (simp add: allNodes_def)

lemma eid_Elem [simp]: "eid (Elem n ks) = nid n"
  by (simp add: eid_def)

lemma ids_Nil [simp]: "ids [] = []"
  by (simp add: ids_def)

lemma ids_Cons [simp]: "ids (Elem n ks # F) = nid n # ids ks @ ids F"
  by (simp add: ids_def)

lemma ids_append [simp]: "ids (F @ G) = ids F @ ids G"
  by (simp add: ids_def)

lemma getElem_Nil [simp]: "getElem i [] = None"
  by (simp add: getElem_def)

lemma find_append: "find P (xs @ ys) = (case find P xs of None \<Rightarrow> find P ys | Some x \<Rightarrow> Some x)"
  by (induction xs) auto

lemma getElem_append: "getElem i (F @ G) = (case getElem i F of None \<Rightarrow> getElem i G | Some x \<Rightarrow> Some x)"
  by (simp add: getElem_def find_append split: option.splits)

lemma getElem_Cons [simp]:
  "getElem i (Elem n ks # F) =
     (if nid n = i then Some (Elem n ks)
      else case getElem i ks of None \<Rightarrow> getElem i F | Some x \<Rightarrow> Some x)"
  by (simp add: getElem_def find_append split: option.splits)

lemma getElem_None_iff: "getElem i F = None \<longleftrightarrow> i \<notin> set (ids F)"
  by (auto simp: getElem_def ids_def find_None_iff)

lemma getElem_Some_eid: "getElem i F = Some e \<Longrightarrow> eid e = i"
  by (auto simp: getElem_def find_Some_iff)

lemma getElem_Some_mem: "getElem i F = Some e \<Longrightarrow> e \<in> set (allNodes F)"
  by (auto simp: getElem_def find_Some_iff)

text \<open>The nodes of a node of a forest are nodes of the forest.\<close>

lemma allNodes_closed: "e \<in> set (allNodes F) \<Longrightarrow> set (allNodes (kids e)) \<subseteq> set (allNodes F)"
proof (induction F rule: forest_induct)
  case Nil
  then show ?case by simp
next
  case (Tree n ks F)
  then show ?case by auto
qed

lemma ids_closed: "e \<in> set (allNodes F) \<Longrightarrow> set (ids (kids e)) \<subseteq> set (ids F)"
  using allNodes_closed[of e F] by (auto simp: ids_def)

subsection \<open>Updating properties\<close>

lemma updateProps_forest [simp]:
  "map (updateProps i f) (Elem n ks # F) =
     Elem (if nid n = i then f n else n) (map (updateProps i f) ks) # map (updateProps i f) F"
  by simp

lemma allNodes_updateProps:
  "allNodes (map (updateProps i f) F) = map (updateProps i f) (allNodes F)"
  by (induction F rule: forest_induct) simp_all

lemma eid_updateProps: "(\<And>n. nid (f n) = nid n) \<Longrightarrow> eid (updateProps i f e) = eid e"
  by (cases e) (simp add: eid_def)

lemma kids_updateProps: "kids (updateProps i f e) = map (updateProps i f) (kids e)"
  by (cases e) simp

lemma props_updateProps: "props (updateProps i f e) = (if eid e = i then f (props e) else props e)"
  by (cases e) simp

lemma ids_updateProps: "(\<And>n. nid (f n) = nid n) \<Longrightarrow> ids (map (updateProps i f) F) = ids F"
  by (simp add: ids_def allNodes_updateProps eid_updateProps)

lemma find_map: "find P (map g xs) = map_option g (find (\<lambda>x. P (g x)) xs)"
  by (induction xs) auto

lemma getElem_updateProps:
  "(\<And>n. nid (f n) = nid n) \<Longrightarrow>
   getElem j (map (updateProps i f) F) = map_option (updateProps i f) (getElem j F)"
  by (simp add: getElem_def allNodes_updateProps find_map eid_updateProps)

lemma parentElement_updateProps:
  "(\<And>n. nid (f n) = nid n) \<Longrightarrow> parentElement j (map (updateProps i f) F) = parentElement j F"
  by (simp add: parentElement_def allNodes_updateProps find_map kids_updateProps
      list_ex_iff eid_updateProps option.map_comp comp_def)

lemma descendants_updateProps:
  "descendants (updateProps i f e) = map (updateProps i f) (descendants e)"
  by (simp add: descendants_def kids_updateProps allNodes_updateProps)

lemma querySelector_updateProps:
  assumes "\<And>n. nid (f n) = nid n" and "\<And>n. matchesSel sel (f n) = matchesSel sel n"
  shows "querySelector sel j (map (updateProps i f) F) = querySelector sel j F"
  using assms
  by (simp add: querySelector_def getElem_updateProps descendants_updateProps find_map
      props_updateProps eid_updateProps option.map_comp comp_def split: option.splits)



subsection \<open>Distinct identities\<close>

lemma ids_single: "ids [e] = eid e # ids (kids e)"
  by (cases e) simp

lemma ids_mem_closed: "e \<in> set (allNodes F) \<Longrightarrow> set (ids [e]) \<subseteq> set (ids F)"
proof -
  assume e: "e \<in> set (allNodes F)"
  then have "eid e \<in> set (ids F)" by (auto simp: ids_def)
  then show ?thesis using ids_closed[OF e] by (simp add: ids_single)
qed

lemma distinct_node: "distinct (ids F) \<Longrightarrow> e \<in> set (allNodes F) \<Longrightarrow> distinct (ids [e])"
proof (induction F rule: forest_induct)
  case Nil
  then show ?case by simp
next
  case (Tree n ks F)
  then show ?case by auto
qed

lemma getElem_iff:
  assumes "distinct (ids F)"
  shows "getElem i F = Some e \<longleftrightarrow> e \<in> set (allNodes F) \<and> eid e = i"
proof
  assume "getElem i F = Some e"
  then show "e \<in> set (allNodes F) \<and> eid e = i"
    using getElem_Some_mem getElem_Some_eid by blast
next
  assume e: "e \<in> set (allNodes F) \<and> eid e = i"
  then have "i \<in> set (ids F)" by (auto simp: ids_def)
  then obtain e' where e': "getElem i F = Some e'" using getElem_None_iff[of i F] by (cases "getElem i F") auto
  then have "e' \<in> set (allNodes F)" "eid e' = i" using getElem_Some_mem getElem_Some_eid by blast+
  moreover have "inj_on eid (set (allNodes F))" using assms by (simp add: ids_def distinct_map)
  ultimately have "e' = e" using e by (auto dest: inj_onD)
  then show "getElem i F = Some e" using e' by simp
qed

lemma acyclic_node:
  assumes "distinct (ids F)" "getElem p F = Some ep" "x \<in> set (allNodes (kids ep))"
  shows "p \<notin> set (ids [x])"
proof -
  have "distinct (ids [ep])" using assms distinct_node getElem_Some_mem by blast
  then have "eid ep \<notin> set (ids (kids ep))" by (simp add: ids_single)
  moreover have "set (ids [x]) \<subseteq> set (ids (kids ep))" using assms(3) ids_mem_closed by blast
  ultimately show ?thesis using getElem_Some_eid[OF assms(2)] by auto
qed

subsection \<open>Cutting a subtree out\<close>

lemma pruneAll_Nil [simp]: "pruneAll i [] = []"
  by (simp add: pruneAll_def)

lemma pruneAll_Cons [simp]:
  "pruneAll i (Elem n ks # F) =
     (if nid n = i then pruneAll i F else Elem n (pruneAll i ks) # pruneAll i F)"
  by (simp add: pruneAll_def)

lemma prune_pruneAll [simp]: "prune i (Elem n ks) = Elem n (pruneAll i ks)"
  by (simp add: pruneAll_def)

declare prune.simps [simp del]

lemma pruneAll_absent: "i \<notin> set (ids F) \<Longrightarrow> pruneAll i F = F"
  by (induction F rule: forest_induct) simp_all

lemma prune_absent: "i \<notin> set (ids (kids e)) \<Longrightarrow> prune i e = e"
  by (cases e) (simp add: pruneAll_absent)

lemma pruneAll_mset:
  "distinct (ids F) \<Longrightarrow> getElem i F = Some e \<Longrightarrow>
   mset (ids (pruneAll i F)) + mset (ids [e]) = mset (ids F)"
proof (induction F rule: forest_induct)
  case Nil
  then show ?case by simp
next
  case (Tree n ks F)
  show ?case
  proof (cases "nid n = i")
    case True
    then have "e = Elem n ks" "i \<notin> set (ids F)" using Tree.prems by auto
    then show ?thesis using True by (simp add: pruneAll_absent)
  next
    case False
    show ?thesis
    proof (cases "getElem i ks")
      case None
      then have "i \<notin> set (ids ks)" by (simp add: getElem_None_iff)
      moreover have "getElem i F = Some e" using Tree.prems(2) False None by simp
      ultimately have "i \<notin> set (ids ks)" "getElem i F = Some e" by blast+
      then show ?thesis using Tree False by (simp add: pruneAll_absent)
    next
      case (Some x)
      then have "x = e" "i \<in> set (ids ks)" using Tree.prems False getElem_None_iff[of i ks] by auto
      then have "i \<notin> set (ids F)" using Tree.prems by auto
      then show ?thesis using Tree False Some \<open>x = e\<close> by (simp add: pruneAll_absent)
    qed
  qed
qed

lemma removed_absent: "i \<notin> set (ids (pruneAll i F))"
  by (induction F rule: forest_induct) simp_all

lemma getElem_pruneAll:
  "distinct (ids F) \<Longrightarrow> getElem i F = Some e \<Longrightarrow> j \<notin> set (ids [e]) \<Longrightarrow>
   getElem j (pruneAll i F) = map_option (prune i) (getElem j F)"
proof (induction F rule: forest_induct)
  case Nil
  then show ?case by simp
next
  case (Tree n ks F)
  have absent: "\<And>G. i \<notin> set (ids G) \<Longrightarrow> map_option (prune i) (getElem j G) = getElem j G"
  proof -
    fix G assume a: "i \<notin> set (ids G)"
    show "map_option (prune i) (getElem j G) = getElem j G"
    proof (cases "getElem j G")
      case None
      then show ?thesis by simp
    next
      case (Some x)
      then have "set (ids (kids x)) \<subseteq> set (ids G)" using getElem_Some_mem ids_closed by blast
      then have "i \<notin> set (ids (kids x))" using a by blast
      then show ?thesis using Some by (simp add: prune_absent)
    qed
  qed
  show ?case
  proof (cases "nid n = i")
    case True
    then have e: "e = Elem n ks" and iF: "i \<notin> set (ids F)" using Tree.prems by auto
    then have "j \<noteq> nid n" "getElem j ks = None"
      using Tree.prems(3) by (auto simp: getElem_None_iff)
    then show ?thesis using True iF absent[OF iF] by (simp add: pruneAll_absent)
  next
    case False
    show ?thesis
    proof (cases "getElem i ks")
      case None
      then have iks: "i \<notin> set (ids ks)" by (simp add: getElem_None_iff)
      have "getElem i F = Some e" using Tree.prems(2) False None by simp
      then have "getElem j (pruneAll i F) = map_option (prune i) (getElem j F)"
        using Tree by simp
      then show ?thesis
        using False iks absent[OF iks]
        by (cases "getElem j ks") (simp_all add: pruneAll_absent)
    next
      case (Some x)
      then have "x = e" "i \<in> set (ids ks)" using Tree.prems False getElem_None_iff[of i ks] by auto
      then have iF: "i \<notin> set (ids F)" using Tree.prems by auto
      have "getElem j (pruneAll i ks) = map_option (prune i) (getElem j ks)"
        using Tree Some \<open>x = e\<close> by simp
      then show ?thesis
        using False iF absent[OF iF]
        by (cases "getElem j ks") (simp_all add: pruneAll_absent)
    qed
  qed
qed

subsection \<open>Changing the children of an element\<close>

lemma updateKids_forest [simp]:
  "map (updateKids i g) (Elem n ks # F) =
     (if nid n = i then Elem n (g ks) else Elem n (map (updateKids i g) ks)) # map (updateKids i g) F"
  by simp

lemma updateKids_absent: "i \<notin> set (ids F) \<Longrightarrow> map (updateKids i g) F = F"
  by (induction F rule: forest_induct) (simp_all)

lemma updateKids_absent_elem: "i \<notin> set (ids [e]) \<Longrightarrow> updateKids i g e = e"
  using updateKids_absent[of i "[e]" g] by simp


lemma getElem_updateKids:
  "distinct (ids F) \<Longrightarrow> getElem i F = Some e \<Longrightarrow>
   j = i \<or> (j \<notin> set (ids (kids e)) \<and> j \<notin> set (ids (g (kids e)))) \<Longrightarrow>
   getElem j (map (updateKids i g) F) = map_option (updateKids i g) (getElem j F)"
proof (induction F rule: forest_induct)
  case Nil
  then show ?case by simp
next
  case (Tree n ks F)
  have absent: "\<And>G. i \<notin> set (ids G) \<Longrightarrow> map_option (updateKids i g) (getElem j G) = getElem j G"
  proof -
    fix G assume a: "i \<notin> set (ids G)"
    show "map_option (updateKids i g) (getElem j G) = getElem j G"
    proof (cases "getElem j G")
      case None
      then show ?thesis by simp
    next
      case (Some x)
      then have "set (ids [x]) \<subseteq> set (ids G)" using getElem_Some_mem ids_mem_closed by blast
      then have "i \<notin> set (ids [x])" using a by blast
      then show ?thesis using Some by (simp add: updateKids_absent_elem)
    qed
  qed
  show ?case
  proof (cases "nid n = i")
    case True
    then have e: "e = Elem n ks" and iF: "i \<notin> set (ids F)" using Tree.prems by auto
    show ?thesis
    proof (cases "j = i")
      case True
      then show ?thesis using \<open>nid n = i\<close> by simp
    next
      case False
      then have "getElem j ks = None" "getElem j (g ks) = None"
        using Tree.prems(3) e by (auto simp: getElem_None_iff)
      then show ?thesis using True False iF absent[OF iF]
        by (simp add: updateKids_absent)
    qed
  next
    case False
    show ?thesis
    proof (cases "getElem i ks")
      case None
      then have iks: "i \<notin> set (ids ks)" by (simp add: getElem_None_iff)
      have "getElem i F = Some e" using Tree.prems(2) False None by simp
      then have "getElem j (map (updateKids i g) F) = map_option (updateKids i g) (getElem j F)"
        using Tree by simp
      then show ?thesis
        using False iks absent[OF iks]
        by (cases "getElem j ks") (simp_all add: updateKids_absent)
    next
      case (Some x)
      then have "x = e" "i \<in> set (ids ks)" using Tree.prems False getElem_None_iff[of i ks] by auto
      then have iF: "i \<notin> set (ids F)" using Tree.prems by auto
      have "getElem j (map (updateKids i g) ks) = map_option (updateKids i g) (getElem j ks)"
        using Tree Some \<open>x = e\<close> by simp
      then show ?thesis
        using False iF absent[OF iF]
        by (cases "getElem j ks") (simp_all add: updateKids_absent)
    qed
  qed
qed



subsection \<open>The properties of all elements\<close>

lemma allProps_Nil [simp]: "allProps [] = []"
  by (simp add: allProps_def)

lemma allProps_Cons [simp]: "allProps (Elem n ks # F) = n # allProps ks @ allProps F"
  by (simp add: allProps_def)

lemma allProps_append [simp]: "allProps (F @ G) = allProps F @ allProps G"
  by (simp add: allProps_def)

lemma ids_allProps: "ids F = map nid (allProps F)"
  by (simp add: ids_def allProps_def eid_def)

lemma allProps_updateProps:
  "allProps (map (updateProps i f) F) = map (\<lambda>n. if nid n = i then f n else n) (allProps F)"
  by (induction F rule: forest_induct) simp_all

lemma updateProps_absent: "i \<notin> set (ids F) \<Longrightarrow> map (updateProps i f) F = F"
  by (induction F rule: forest_induct) simp_all

lemma pruneAll_props:
  "distinct (ids F) \<Longrightarrow> getElem i F = Some e \<Longrightarrow>
   mset (allProps (pruneAll i F)) + mset (allProps [e]) = mset (allProps F)"
proof (induction F rule: forest_induct)
  case Nil
  then show ?case by simp
next
  case (Tree n ks F)
  show ?case
  proof (cases "nid n = i")
    case True
    then have "e = Elem n ks" "i \<notin> set (ids F)" using Tree.prems by auto
    then show ?thesis using True by (simp add: pruneAll_absent)
  next
    case False
    show ?thesis
    proof (cases "getElem i ks")
      case None
      then have "i \<notin> set (ids ks)" by (simp add: getElem_None_iff)
      moreover have "getElem i F = Some e" using Tree.prems(2) False None by simp
      ultimately show ?thesis using Tree False by (simp add: pruneAll_absent)
    next
      case (Some x)
      then have "x = e" "i \<in> set (ids ks)" using Tree.prems False getElem_None_iff[of i ks] by auto
      then have "i \<notin> set (ids F)" using Tree.prems by auto
      then show ?thesis using Tree False Some \<open>x = e\<close> by (simp add: pruneAll_absent)
    qed
  qed
qed

lemma updateKids_props:
  "distinct (ids F) \<Longrightarrow> getElem i F = Some e \<Longrightarrow>
   mset (allProps (map (updateKids i g) F)) + mset (allProps (kids e)) =
   mset (allProps F) + mset (allProps (g (kids e)))"
proof (induction F rule: forest_induct)
  case Nil
  then show ?case by simp
next
  case (Tree n ks F)
  show ?case
  proof (cases "nid n = i")
    case True
    then have "e = Elem n ks" "i \<notin> set (ids F)" using Tree.prems by auto
    then show ?thesis using True by (simp add: updateKids_absent)
  next
    case False
    show ?thesis
    proof (cases "getElem i ks")
      case None
      then have "i \<notin> set (ids ks)" by (simp add: getElem_None_iff)
      moreover have "getElem i F = Some e" using Tree.prems(2) False None by simp
      ultimately show ?thesis using Tree False by (simp add: updateKids_absent)
    next
      case (Some x)
      then have "x = e" "i \<in> set (ids ks)" using Tree.prems False getElem_None_iff[of i ks] by auto
      then have "i \<notin> set (ids F)" using Tree.prems by auto
      moreover have "mset (allProps (map (updateKids i g) ks)) + mset (allProps (kids e)) =
          mset (allProps ks) + mset (allProps (g (kids e)))"
        using Tree Some \<open>x = e\<close> by simp
      ultimately show ?thesis using False
        by (simp add: updateKids_absent)
    qed
  qed
qed


subsection \<open>Roots, children and parents\<close>

lemma roots_pruneAll: "map eid (pruneAll i F) = filter (\<lambda>j. j \<noteq> i) (map eid F)"
  by (induction F rule: forest_induct) simp_all

lemma rootProps_pruneAll: "map props (pruneAll i F) = filter (\<lambda>n. nid n \<noteq> i) (map props F)"
  by (induction F rule: forest_induct) simp_all

lemma rootProps_updateKids: "map props (map (updateKids i g) F) = map props F"
  by (induction F rule: forest_induct) simp_all

lemma roots_in_ids: "set (map eid F) \<subseteq> set (ids F)"
  by (induction F rule: forest_induct) auto

lemma parentElement_Nil [simp]: "parentElement i [] = None"
  by (simp add: parentElement_def)

lemma parentElement_Cons [simp]:
  "parentElement i (Elem n ks # F) =
     (if i \<in> set (map eid ks) then Some (nid n)
      else case parentElement i ks of None \<Rightarrow> parentElement i F | Some p \<Rightarrow> Some p)"
  by (auto simp: parentElement_def find_append list_ex_iff split: option.splits)

lemma parentElement_absent: "i \<notin> set (ids F) \<Longrightarrow> parentElement i F = None"
proof (induction F rule: forest_induct)
  case Nil
  then show ?case by simp
next
  case (Tree n ks F)
  then show ?case using roots_in_ids[of ks] by auto
qed

lemma kid_not_root:
  "distinct (ids F) \<Longrightarrow> e \<in> set (allNodes F) \<Longrightarrow> k \<in> set (kids e) \<Longrightarrow> eid k \<notin> set (map eid F)"
proof (induction F rule: forest_induct)
  case Nil
  then show ?case by simp
next
  case (Tree n ks F)
  have d: "nid n \<notin> set (ids ks)" "nid n \<notin> set (ids F)" "distinct (ids ks)" "distinct (ids F)"
    "set (ids ks) \<inter> set (ids F) = {}" using Tree.prems(1) by auto
  consider "e = Elem n ks" | "e \<in> set (allNodes ks)" | "e \<in> set (allNodes F)"
    using Tree.prems(2) by auto
  then show ?case
  proof cases
    case 1
    then have "eid k \<in> set (ids ks)" using Tree.prems(3) roots_in_ids[of ks] by auto
    then show ?thesis using d roots_in_ids[of F] by auto
  next
    case 2
    then have "eid k \<in> set (ids ks)"
      using Tree.prems(3) ids_closed[OF 2] roots_in_ids[of "kids e"] by auto
    then show ?thesis using d roots_in_ids[of F] by auto
  next
    case 3
    then have "eid k \<in> set (ids F)"
      using Tree.prems(3) ids_closed[OF 3] roots_in_ids[of "kids e"] by auto
    moreover have "eid k \<notin> set (map eid F)" using Tree.IH(2)[OF d(4) 3 Tree.prems(3)] .
    ultimately show ?thesis using d by auto
  qed
qed

lemma parent_intro:
  "distinct (ids F) \<Longrightarrow> getElem p F = Some e \<Longrightarrow> i \<in> set (map eid (kids e)) \<Longrightarrow>
   parentElement i F = Some p"
proof (induction F rule: forest_induct)
  case Nil
  then show ?case by simp
next
  case (Tree n ks F)
  have d: "nid n \<notin> set (ids ks)" "nid n \<notin> set (ids F)" "distinct (ids ks)" "distinct (ids F)"
    "set (ids ks) \<inter> set (ids F) = {}" using Tree.prems(1) by auto
  obtain k where k: "k \<in> set (kids e)" "eid k = i" using Tree.prems(3) by auto
  show ?case
  proof (cases "nid n = p")
    case True
    then have "e = Elem n ks" using Tree.prems(2) by simp
    then show ?thesis using Tree.prems(3) True by simp
  next
    case False
    show ?thesis
    proof (cases "getElem p ks")
      case None
      then have g: "getElem p F = Some e" using Tree.prems(2) False by simp
      then have "e \<in> set (allNodes F)" by (rule getElem_Some_mem)
      then have "i \<in> set (ids F)"
        using k ids_closed[of e F] roots_in_ids[of "kids e"] by auto
      then have "i \<notin> set (ids ks)" using d by auto
      then have "i \<notin> set (map eid ks)" "parentElement i ks = None"
        using roots_in_ids[of ks] parentElement_absent by auto
      then show ?thesis using Tree.IH(2)[OF d(4) g Tree.prems(3)] by simp
    next
      case (Some x)
      then have g: "getElem p ks = Some e" using Tree.prems(2) False by simp
      then have "e \<in> set (allNodes ks)" by (rule getElem_Some_mem)
      then have "i \<notin> set (map eid ks)" using kid_not_root[OF d(3) _ k(1)] k(2) by simp
      then show ?thesis using Tree.IH(1)[OF d(3) g Tree.prems(3)] by simp
    qed
  qed
qed

lemma parent_elim:
  assumes "distinct (ids F)" "parentElement i F = Some p"
  shows "\<exists>e. getElem p F = Some e \<and> i \<in> set (map eid (kids e))"
proof -
  obtain e where e: "find (\<lambda>e. list_ex (\<lambda>k. eid k = i) (kids e)) (allNodes F) = Some e" "p = eid e"
    using assms(2) by (auto simp: parentElement_def)
  then have "e \<in> set (allNodes F)" "list_ex (\<lambda>k. eid k = i) (kids e)"
    by (auto simp: find_Some_iff)
  then show ?thesis using getElem_iff[OF assms(1)] e(2) by (auto simp: list_ex_iff)
qed

lemma node_has_parent:
  "x \<in> set (allNodes F) \<Longrightarrow> x \<in> set F \<or> (\<exists>e \<in> set (allNodes F). x \<in> set (kids e))"
proof (induction F rule: forest_induct)
  case Nil
  then show ?case by simp
next
  case (Tree n ks F)
  then show ?case by auto
qed

lemma descendant_has_parent:
  assumes "e \<in> set (allNodes F)" "x \<in> set (allNodes (kids e))"
  shows "parentElement (eid x) F \<noteq> None"
proof -
  have "\<exists>q \<in> set (allNodes F). x \<in> set (kids q)"
    using node_has_parent[OF assms(2)] assms(1) allNodes_closed[OF assms(1)] by auto
  then show ?thesis
    by (auto simp: parentElement_def find_None_iff list_ex_iff)
qed

lemma find_Some_mem: "find P xs = Some x \<Longrightarrow> x \<in> set xs \<and> P x"
  by (induction xs) (auto split: if_splits)

lemma querySelector_elim:
  assumes "querySelector sel f F = Some el"
  shows "\<exists>e x. getElem f F = Some e \<and> x \<in> set (allNodes (kids e)) \<and> eid x = el \<and>
           matchesSel sel (props x) \<and>
           find (\<lambda>x. matchesSel sel (props x)) (allNodes (kids e)) = Some x"
proof -
  obtain e where e: "getElem f F = Some e" using assms by (auto simp: querySelector_def split: option.splits)
  then obtain x where x: "find (\<lambda>x. matchesSel sel (props x)) (allNodes (kids e)) = Some x" "eid x = el"
    using assms by (auto simp: querySelector_def descendants_def)
  then show ?thesis using e find_Some_mem[OF x(1)] by blast
qed

lemma querySelector_has_parent:
  assumes "querySelector sel f F = Some el"
  shows "parentElement el F \<noteq> None"
proof -
  obtain e x where "getElem f F = Some e" "x \<in> set (allNodes (kids e))" "eid x = el"
    using querySelector_elim[OF assms] by blast
  then show ?thesis using descendant_has_parent[of e F x] getElem_Some_mem by blast
qed

subsection \<open>Cutting after a change at the same element\<close>

lemma pruneAll_updateProps_same:
  "(\<And>n. nid (f n) = nid n) \<Longrightarrow> pruneAll i (map (updateProps i f) F) = pruneAll i F"
  by (induction F rule: forest_induct) simp_all

lemma pruneAll_updateKids_same: "pruneAll i (map (updateKids i g) F) = pruneAll i F"
  by (induction F rule: forest_induct) simp_all



subsection \<open>The operations of the document on a forest\<close>


lemma node_of_id:
  assumes "distinct (ids F)" "getElem i F = Some e"
  shows "distinct (ids [e])" "i \<notin> set (ids (kids e))"
proof -
  show d: "distinct (ids [e])" using assms distinct_node getElem_Some_mem by blast
  show "i \<notin> set (ids (kids e))" using d getElem_Some_eid[OF assms(2)] by (simp add: ids_single)
qed

lemma map_id_on: "(\<And>x. x \<in> set xs \<Longrightarrow> f x = x) \<Longrightarrow> map f xs = xs"
  by (induction xs) auto

lemma nid_assignText [simp]: "nid (assignText s n) = nid n"
  by (simp add: assignText_def)

lemma classList_assignText [simp]: "classList (assignText s n) = classList n"
  by (simp add: assignText_def)

lemma tagName_assignText [simp]: "tagName (assignText s n) = tagName n"
  by (simp add: assignText_def)

lemma attrs_assignText [simp]: "attrs (assignText s n) = attrs n"
  by (simp add: assignText_def)

lemma textContent_assignText [simp]: "textContent (assignText s n) = s"
  by (simp add: assignText_def)

lemma matchesSel_assignText [simp]: "matchesSel sel (assignText s n) = matchesSel sel n"
  by (cases sel) (simp add: attrMatches_def split: option.splits prod.splits)

lemma setTextContent_props:
  assumes d: "distinct (ids F)" and x: "getElem er F = Some x"
  shows "mset (allProps (setTextContent er msg F)) =
         image_mset (\<lambda>n. if nid n = er then assignText msg n else n) (mset (allProps F))"
proof -
  let ?h = "\<lambda>n. if nid n = er then assignText msg n else n"
  let ?K = "map (updateKids er (\<lambda>ks. [])) F"
  have no: "er \<notin> set (ids (kids x))" using node_of_id[OF d x] by simp
  then have "map ?h (allProps (kids x)) = allProps (kids x)"
    by (intro map_id_on) (auto simp: ids_allProps)
  then have "image_mset ?h (mset (allProps (kids x))) = mset (allProps (kids x))"
    by (metis mset_map)
  then have "mset (allProps (setTextContent er msg F)) =
      image_mset ?h (mset (allProps ?K) + mset (allProps (kids x)))"
    using x by (simp add: setTextContent_def allProps_updateProps del: map_map)
  also have "mset (allProps ?K) + mset (allProps (kids x)) = mset (allProps F)"
    using updateKids_props[OF d x, of "\<lambda>ks. []"] by simp
  finally show ?thesis .
qed

lemma setTextContent_self:
  assumes d: "distinct (ids F)" and x: "getElem er F = Some x"
  shows "getElem er (setTextContent er msg F) = Some (Elem (assignText msg (props x)) [])"
proof -
  obtain n ks where xe: "x = Elem n ks" by (cases x)
  have n: "nid n = er" using getElem_Some_eid[OF x] xe by simp
  have "getElem er (map (updateKids er (\<lambda>ks. [])) F) = Some (Elem n [])"
    using getElem_updateKids[OF d x, of er "\<lambda>ks. []"] x xe n by simp
  then have "getElem er (map (updateProps er (assignText msg)) (map (updateKids er (\<lambda>ks. [])) F))
      = Some (Elem (assignText msg n) [])"
    using n by (simp add: getElem_updateProps del: map_map)
  then show ?thesis using x xe by (simp add: setTextContent_def getElem_append del: map_map)
qed

lemma setTextContent_other:
  assumes d: "distinct (ids F)" and x: "getElem er F = Some x"
    and p: "getElem p F = Some ep" and out: "p \<notin> set (ids [x])"
  shows "getElem p (setTextContent er msg F) =
         Some (updateProps er (assignText msg) (updateKids er (\<lambda>ks. []) ep))"
proof -
  have "p \<notin> set (ids (kids x))" using out by (simp add: ids_single)
  then have "getElem p (map (updateKids er (\<lambda>ks. [])) F) = Some (updateKids er (\<lambda>ks. []) ep)"
    using getElem_updateKids[OF d x, of p "\<lambda>ks. []"] p by simp
  then have "getElem p (map (updateProps er (assignText msg)) (map (updateKids er (\<lambda>ks. [])) F))
      = Some (updateProps er (assignText msg) (updateKids er (\<lambda>ks. []) ep))"
    by (simp add: getElem_updateProps del: map_map)
  then show ?thesis using x by (simp add: setTextContent_def getElem_append del: map_map)
qed

lemma appendChild_spec:
  assumes d: "distinct (ids F)" and c: "getElem er F = Some e'" and leaf: "kids e' = []"
    and p: "getElem p F = Some ep" and ne: "p \<noteq> er"
  shows "\<exists>F'. appendChild p er F = Inr F' \<and> mset (allProps F') = mset (allProps F) \<and>
           getElem p F' = Some (Elem (props ep) (pruneAll er (kids ep) @ [e']))"
proof -
  let ?G = "pruneAll er F"
  let ?F' = "map (updateKids p (\<lambda>ks. ks @ [e'])) ?G"
  have ide: "ids [e'] = [er]" using leaf getElem_Some_eid[OF c] by (simp add: ids_single)
  have nodes: "nodes e' = [e']" using leaf by (cases e') simp
  have app: "appendChild p er F = Inr ?F'"
    using c nodes ne getElem_Some_eid[OF c] by (simp add: appendChild_def)
  have gm: "mset (allProps ?G) + mset (allProps [e']) = mset (allProps F)"
    by (rule pruneAll_props[OF d c])
  then have "mset (ids ?G) + mset (ids [e']) = mset (ids F)"
    by (metis ids_allProps mset_map image_mset_union)
  then have dG: "distinct (ids ?G)"
    using d by (metis distinct_append mset_append mset_eq_imp_distinct_iff)
  have pG: "getElem p ?G = Some (prune er ep)"
    using getElem_pruneAll[OF d c, of p] ide ne p by simp
  obtain n ks where ep: "ep = Elem n ks" by (cases ep)
  have km: "mset (allProps ?F') + mset (allProps (kids (prune er ep))) =
      mset (allProps ?G) + mset (allProps (kids (prune er ep) @ [e']))"
    by (rule updateKids_props[OF dG pG])
  have "mset (allProps ?F') = mset (allProps ?G) + mset (allProps [e'])"
    using km by simp
  then have m: "mset (allProps ?F') = mset (allProps F)" using gm by simp
  have "getElem p ?F' = Some (updateKids p (\<lambda>ks. ks @ [e']) (prune er ep))"
    using getElem_updateKids[OF dG pG, of p "\<lambda>ks. ks @ [e']"] pG by simp
  moreover have "nid n = p" using getElem_Some_eid[OF p] ep by simp
  ultimately have "getElem p ?F' = Some (Elem (props ep) (pruneAll er (kids ep) @ [e']))"
    using ep by simp
  then show ?thesis using app m by blast
qed

lemma remove_spec:
  assumes d: "distinct (ids F)" and c: "getElem er F = Some x" and nr: "er \<notin> set (map eid F)"
  shows "remove er F = pruneAll er F @ [x]"
    and "mset (allProps (remove er F)) = mset (allProps F)"
    and "p \<notin> set (ids [x]) \<Longrightarrow> getElem p F = Some ep \<Longrightarrow> getElem p (remove er F) = Some (prune er ep)"
proof -
  show r: "remove er F = pruneAll er F @ [x]"
    using c nr by (auto simp: remove_def list_ex_iff)
  show "mset (allProps (remove er F)) = mset (allProps F)"
    using pruneAll_props[OF d c] by (simp add: r)
  show "getElem p (remove er F) = Some (prune er ep)" if "p \<notin> set (ids [x])" "getElem p F = Some ep"
    using getElem_pruneAll[OF d c that(1)] that(2) by (simp add: r getElem_append)
qed



subsection \<open>Marking and clearing on a page\<close>

lemma ids_image_props:
  assumes "mset (allProps F') = image_mset h (mset (allProps F))" "\<And>n. nid (h n) = nid n"
  shows "mset (ids F') = mset (ids F)"
proof -
  have "mset (ids F') = image_mset nid (image_mset h (mset (allProps F)))"
    using assms(1) by (metis ids_allProps mset_map)
  also have "\<dots> = image_mset nid (mset (allProps F))"
    using assms(2) by (simp add: image_mset.compositionality comp_def)
  finally show ?thesis by (metis ids_allProps mset_map)
qed

lemma props_updateProps_other: "eid y \<noteq> i \<Longrightarrow> props (updateProps i f y) = props y"
  by (cases y) (simp add: eid_def)

lemma place_error:
  assumes d: "distinct (ids F)" and x: "getElem er F = Some x"
    and p: "getElem p F = Some ep" and out: "p \<notin> set (ids [x])"
  shows "\<exists>F4. appendChild p er (setTextContent er msg F) = Inr F4 \<and>
           mset (allProps F4) =
             image_mset (\<lambda>n. if nid n = er then assignText msg n else n) (mset (allProps F)) \<and>
           getElem p F4 =
             Some (Elem (props ep) (pruneAll er (kids ep) @ [Elem (assignText msg (props x)) []]))"
proof -
  let ?h = "\<lambda>n. if nid n = er then assignText msg n else n"
  let ?F3 = "setTextContent er msg F"
  let ?e' = "Elem (assignText msg (props x)) []"
  let ?ep3 = "updateProps er (assignText msg) (updateKids er (\<lambda>ks. []) ep)"
  have ne: "p \<noteq> er" using out getElem_Some_eid[OF x] by (auto simp: ids_single)
  have m3: "mset (allProps ?F3) = image_mset ?h (mset (allProps F))"
    by (rule setTextContent_props[OF d x])
  have "mset (ids ?F3) = mset (ids F)" by (rule ids_image_props[OF m3]) simp
  then have d3: "distinct (ids ?F3)" using d by (metis mset_eq_imp_distinct_iff)
  have e3: "getElem er ?F3 = Some ?e'" by (rule setTextContent_self[OF d x])
  have p3: "getElem p ?F3 = Some ?ep3" by (rule setTextContent_other[OF d x p out])
  obtain F4 where F4: "appendChild p er ?F3 = Inr F4" "mset (allProps F4) = mset (allProps ?F3)"
      "getElem p F4 = Some (Elem (props ?ep3) (pruneAll er (kids ?ep3) @ [?e']))"
    using appendChild_spec[OF d3 e3 _ p3 ne] by auto
  obtain n ks where ep: "ep = Elem n ks" by (cases ep)
  have np: "nid n = p" using getElem_Some_eid[OF p] ep by simp
  have "props ?ep3 = props ep" using ep np ne by simp
  moreover have "pruneAll er (kids ?ep3) = pruneAll er (kids ep)"
    using ep np ne by (simp add: pruneAll_updateProps_same pruneAll_updateKids_same del: map_map)
  ultimately show ?thesis using F4 m3 by simp
qed

lemma nid_classListAdd [simp]: "nid (classListAdd c n) = nid n"
  by (simp add: classListAdd_def)

lemma nid_classListRemove [simp]: "nid (classListRemove c n) = nid n"
  by (simp add: classListRemove_def)

lemma wellFormed_bound: "wellFormed pg \<Longrightarrow> i \<in> set (ids (forest pg)) \<Longrightarrow> i < nextId pg"
  by (auto simp: wellFormed_def list_all_iff)

lemma showError_spec:
  assumes wf: "wellFormed pg" and par: "parentElement el (forest pg) = Some p"
  obtains pg' ep er x extra where
    "showError el msg pg = Inr pg'"
    "getElem p (map (updateProps el (classListAdd ''field-error'')) (forest pg)) = Some ep"
    "el \<in> set (map eid (kids ep))"
    "getElem p (forest pg') =
       Some (Elem (props ep) (pruneAll er (kids ep) @ [Elem (assignText msg (props x)) []]))"
    "eid x = er" "isError x"
    "find isError (allNodes (kids ep)) = (if extra = [] then Some x else None)"
    "mset (allProps (forest pg')) =
       image_mset (putText er msg) (mset (map (addMark el) (allProps (forest pg)) @ extra))"
    "extra = [] \<and> nextId pg' = nextId pg \<or>
     extra = [props x] \<and> er = nextId pg \<and> nextId pg' = Suc (nextId pg) \<and>
       classList (props x) = [''error-message''] \<and> elValue (props x) = [] \<and> tagName (props x) = ''div''"
    "document pg' = document pg" "listeners pg' = listeners pg" "timers pg' = timers pg"
    "now pg' = now pg"
proof -
  let ?add = "classListAdd ''field-error''"
  let ?F1 = "map (updateProps el ?add) (forest pg)"
  let ?pg1 = "pg\<lparr>forest := ?F1\<rparr>"
  have d0: "distinct (ids (forest pg))" using wf by (simp add: wellFormed_def)
  have i1: "ids ?F1 = ids (forest pg)" by (simp add: ids_updateProps)
  have d1: "distinct (ids ?F1)" using d0 i1 by simp
  have p1: "parentElement el ?F1 = Some p" using par by (simp add: parentElement_updateProps)
  obtain ep where ep: "getElem p ?F1 = Some ep" "el \<in> set (map eid (kids ep))"
    using parent_elim[OF d1 p1] by blast
  have a1: "allProps ?F1 = map (addMark el) (allProps (forest pg))"
    by (simp add: allProps_updateProps addMark_def)
  have isE: "isError = (\<lambda>y. matchesSel errorMessageSel (props y))"
    by (simp add: fun_eq_iff isError_def)
  show ?thesis
  proof (cases "querySelector errorMessageSel p ?F1")
    case (Some er)
    obtain x where x: "x \<in> set (allNodes (kids ep))" "eid x = er" "isError x"
        "find isError (allNodes (kids ep)) = Some x"
      using querySelector_elim[OF Some] ep(1) by (auto simp: isE)
    have "x \<in> set (allNodes ?F1)" using x(1) allNodes_closed[OF getElem_Some_mem[OF ep(1)]] by blast
    then have gx: "getElem er ?F1 = Some x" using getElem_iff[OF d1] x(2) by simp
    have out: "p \<notin> set (ids [x])" by (rule acyclic_node[OF d1 ep(1) x(1)])
    obtain F4 where F4: "appendChild p er (setTextContent er msg ?F1) = Inr F4"
        "mset (allProps F4) = image_mset (putText er msg) (mset (allProps ?F1))"
        "getElem p F4 =
           Some (Elem (props ep) (pruneAll er (kids ep) @ [Elem (assignText msg (props x)) []]))"
      using place_error[OF d1 gx ep(1) out, of msg] unfolding putText_def[abs_def] by blast
    let ?pg' = "?pg1\<lparr>forest := F4\<rparr>"
    have s: "showError el msg pg = Inr ?pg'"
      using p1 Some F4(1) by (simp add: showError_def Let_def)
    show ?thesis
      by (rule that[of ?pg' ep er x "[]"]) (use s ep F4 x a1 in simp_all)
  next
    case None
    let ?new = "nextId pg"
    let ?nn = "\<lparr>nid = ?new, tagName = ''div'', attrs = [], classList = [''error-message''],
        style = [(''color'', ''#dc3545''), (''font-size'', ''12px''), (''margin-top'', ''4px'')],
        elValue = [], defaultValue = [], dirty = False, textContent = []\<rparr>"
    let ?x = "Elem ?nn []"
    let ?F2 = "?F1 @ [?x]"
    let ?pg2 = "?pg1\<lparr>forest := ?F2, nextId := Suc ?new\<rparr>"
    have fresh: "?new \<notin> set (ids ?F1)" using wellFormed_bound[OF wf, of ?new] i1 by auto
    have c: "createErrorElement ?pg1 = (?new, ?pg2)"
      using fresh by (simp add: createErrorElement_def createElement_def updateProps_absent del: map_map)
    have d2: "distinct (ids ?F2)" using d1 fresh by simp
    have gx: "getElem ?new ?F2 = Some ?x"
      using fresh by (simp add: getElem_append getElem_None_iff[THEN iffD2])
    have gp: "getElem p ?F2 = Some ep" using ep(1) by (simp add: getElem_append)
    have "p \<in> set (ids ?F1)" using ep(1) getElem_None_iff[of p ?F1] by auto
    then have out: "p \<notin> set (ids [?x])" using fresh by auto
    obtain F4 where F4: "appendChild p ?new (setTextContent ?new msg ?F2) = Inr F4"
        "mset (allProps F4) = image_mset (putText ?new msg) (mset (allProps ?F2))"
        "getElem p F4 =
           Some (Elem (props ep) (pruneAll ?new (kids ep) @ [Elem (assignText msg (props ?x)) []]))"
      using place_error[OF d2 gx gp out, of msg] unfolding putText_def[abs_def] by blast
    let ?pg' = "?pg2\<lparr>forest := F4\<rparr>"
    have s: "showError el msg pg = Inr ?pg'"
      using p1 None F4(1) c by (simp add: showError_def Let_def)
    have nf: "find isError (allNodes (kids ep)) = None"
      using None ep(1) by (simp add: querySelector_def descendants_def isE)
    show ?thesis
      by (rule that[of ?pg' ep ?new ?x "[?nn]"])
        (use s ep F4 a1 nf in \<open>simp_all add: isError_def errorMessageSel_def\<close>)
  qed
qed



lemma strict_descendant_not_root:
  assumes d: "distinct (ids F)" and e: "e \<in> set (allNodes F)" and x: "x \<in> set (allNodes (kids e))"
  shows "eid x \<notin> set (map eid F)"
proof -
  obtain q where q: "q \<in> set (allNodes F)" "x \<in> set (kids q)"
    using node_has_parent[OF x] e allNodes_closed[OF e] by auto
  show ?thesis by (rule kid_not_root[OF d q])
qed

lemma clearError_spec:
  assumes wf: "wellFormed pg" and par: "parentElement el (forest pg) = Some p"
  obtains pg' ep where
    "clearError el pg = Inr pg'"
    "getElem p (map (updateProps el (classListRemove ''field-error'')) (forest pg)) = Some ep"
    "el \<in> set (map eid (kids ep))"
    "mset (allProps (forest pg')) = mset (map (dropMark el) (allProps (forest pg)))"
    "find isError (allNodes (kids ep)) = None \<and>
       forest pg' = map (updateProps el (classListRemove ''field-error'')) (forest pg) \<or>
     (\<exists>x. find isError (allNodes (kids ep)) = Some x \<and>
        getElem p (forest pg') = Some (Elem (props ep) (pruneAll (eid x) (kids ep))) \<and>
        forest pg' =
          pruneAll (eid x) (map (updateProps el (classListRemove ''field-error'')) (forest pg)) @ [x])"
    "document pg' = document pg" "listeners pg' = listeners pg" "timers pg' = timers pg"
    "now pg' = now pg" "nextId pg' = nextId pg"
proof -
  let ?F1 = "map (updateProps el (classListRemove ''field-error'')) (forest pg)"
  let ?pg1 = "pg\<lparr>forest := ?F1\<rparr>"
  have d0: "distinct (ids (forest pg))" using wf by (simp add: wellFormed_def)
  have i1: "ids ?F1 = ids (forest pg)" by (simp add: ids_updateProps)
  have d1: "distinct (ids ?F1)" using d0 i1 by simp
  have p1: "parentElement el ?F1 = Some p" using par by (simp add: parentElement_updateProps)
  obtain ep where ep: "getElem p ?F1 = Some ep" "el \<in> set (map eid (kids ep))"
    using parent_elim[OF d1 p1] by blast
  have a1: "allProps ?F1 = map (dropMark el) (allProps (forest pg))"
    by (simp add: allProps_updateProps dropMark_def)
  have isE: "isError = (\<lambda>y. matchesSel errorMessageSel (props y))"
    by (simp add: fun_eq_iff isError_def)
  show ?thesis
  proof (cases "querySelector errorMessageSel p ?F1")
    case None
    have nf: "find isError (allNodes (kids ep)) = None"
      using None ep(1) by (simp add: querySelector_def descendants_def isE)
    have s: "clearError el pg = Inr ?pg1" using p1 None by (simp add: clearError_def Let_def)
    show ?thesis by (rule that[of ?pg1 ep]) (use s ep a1 nf in simp_all)
  next
    case (Some er)
    obtain x where x: "x \<in> set (allNodes (kids ep))" "eid x = er"
        "find isError (allNodes (kids ep)) = Some x"
      using querySelector_elim[OF Some] ep(1) by (auto simp: isE)
    have em: "ep \<in> set (allNodes ?F1)" by (rule getElem_Some_mem[OF ep(1)])
    have "x \<in> set (allNodes ?F1)" using x(1) allNodes_closed[OF em] by blast
    then have gx: "getElem er ?F1 = Some x" using getElem_iff[OF d1] x(2) by simp
    have out: "p \<notin> set (ids [x])" by (rule acyclic_node[OF d1 ep(1) x(1)])
    have nr: "er \<notin> set (map eid ?F1)" using strict_descendant_not_root[OF d1 em x(1)] x(2) by simp
    let ?pg' = "?pg1\<lparr>forest := remove er ?F1\<rparr>"
    have s: "clearError el pg = Inr ?pg'" using p1 Some by (simp add: clearError_def Let_def)
    obtain n ks where epe: "ep = Elem n ks" by (cases ep)
    have gp: "getElem p (remove er ?F1) = Some (Elem (props ep) (pruneAll er (kids ep)))"
      using remove_spec(3)[OF d1 gx nr out ep(1)] epe by simp
    have m: "mset (allProps (remove er ?F1)) = mset (allProps ?F1)"
      by (rule remove_spec(2)[OF d1 gx nr])
    have r: "remove er ?F1 = pruneAll er ?F1 @ [x]" by (rule remove_spec(1)[OF d1 gx nr])
    show ?thesis
      by (rule that[of ?pg' ep]) (use s ep a1 x gp m r in simp_all)
  qed
qed

subsection \<open>What marking and clearing leave of the page\<close>

lemma nid_addMark [simp]: "nid (addMark el n) = nid n"
  by (simp add: addMark_def)

lemma nid_dropMark [simp]: "nid (dropMark el n) = nid n"
  by (simp add: dropMark_def)

lemma nid_putText [simp]: "nid (putText er msg n) = nid n"
  by (simp add: putText_def)

lemma wellFormedI:
  assumes "mset (ids F') = mset (ids F) + mset new" "wellFormed pg" "forest pg = F" "forest pg' = F'"
    "\<And>j. j \<in> set new \<Longrightarrow> nextId pg \<le> j \<and> j < nextId pg'" "distinct new" "nextId pg \<le> nextId pg'"
  shows "wellFormed pg'"
proof -
  have d: "distinct (ids F)" and b: "\<And>i. i \<in> set (ids F) \<Longrightarrow> i < nextId pg"
    using assms(2,3) by (auto simp: wellFormed_def list_all_iff)
  have "mset (ids F') = mset (ids F @ new)" using assms(1) by simp
  moreover have "distinct (ids F @ new)" using d assms(5,6) b by fastforce
  ultimately have "distinct (ids F')" by (metis mset_eq_imp_distinct_iff)
  moreover have "set (ids F') = set (ids F) \<union> set new"
    using assms(1) by (metis mset_append set_append set_mset_mset)
  ultimately show ?thesis using assms(4,5,7) b by (fastforce simp: wellFormed_def list_all_iff)
qed

lemma showError_ids:
  assumes "mset (allProps F') = image_mset (putText er msg) (mset (map (addMark el) (allProps F) @ extra))"
  shows "mset (ids F') = mset (ids F) + mset (map nid extra)"
proof -
  have "mset (ids F') = image_mset nid (mset (allProps F'))" by (metis ids_allProps mset_map)
  also have "\<dots> = image_mset nid (mset (allProps F)) + image_mset nid (mset extra)"
    using assms by (simp add: image_mset.compositionality comp_def)
  finally show ?thesis by (metis ids_allProps mset_map)
qed

lemma clearError_ids:
  assumes "mset (allProps F') = mset (map (dropMark el) (allProps F))"
  shows "mset (ids F') = mset (ids F)"
proof -
  have "mset (ids F') = image_mset nid (mset (allProps F'))" by (metis ids_allProps mset_map)
  also have "\<dots> = image_mset nid (mset (allProps F))"
    using assms by (simp add: image_mset.compositionality comp_def)
  finally show ?thesis by (metis ids_allProps mset_map)
qed

lemma propsOf_iff:
  assumes "distinct (ids F)"
  shows "propsOf i F = Some n \<longleftrightarrow> n \<in> set (allProps F) \<and> nid n = i"
proof
  assume "propsOf i F = Some n"
  then obtain e where "getElem i F = Some e" "props e = n" by (auto simp: propsOf_def)
  then show "n \<in> set (allProps F) \<and> nid n = i"
    using getElem_Some_mem getElem_Some_eid by (fastforce simp: allProps_def eid_def)
next
  assume "n \<in> set (allProps F) \<and> nid n = i"
  then obtain e where "e \<in> set (allNodes F)" "props e = n" "eid e = i"
    by (auto simp: allProps_def eid_def)
  then have "getElem i F = Some e" using getElem_iff[OF assms] by blast
  then show "propsOf i F = Some n" using \<open>props e = n\<close> by (simp add: propsOf_def)
qed

lemma propsOf_None_iff: "propsOf i F = None \<longleftrightarrow> i \<notin> set (ids F)"
  by (simp add: propsOf_def getElem_None_iff)

lemma propsOf_image:
  assumes d: "distinct (ids F)" and d': "distinct (ids F')"
    and m: "mset (allProps F') = image_mset h (mset (allProps F @ extra))"
    and h: "\<And>n. nid (h n) = nid n"
  shows "i \<in> set (ids F) \<Longrightarrow> propsOf i F' = map_option h (propsOf i F)"
    and "n \<in> set extra \<Longrightarrow> propsOf (nid n) F' = Some (h n)"
proof -
  have s: "set (allProps F') = h ` (set (allProps F) \<union> set extra)"
    using m by (metis set_mset_mset set_image_mset set_append)
  show "propsOf i F' = map_option h (propsOf i F)" if mem: "i \<in> set (ids F)"
  proof -
    obtain n where n: "propsOf i F = Some n"
      using mem propsOf_None_iff[of i F] by (cases "propsOf i F") auto
    then have "n \<in> set (allProps F)" "nid n = i" using propsOf_iff[OF d] by auto
    then have "h n \<in> set (allProps F')" "nid (h n) = i" using s h by auto
    then show ?thesis using propsOf_iff[OF d'] n by simp
  qed
  show "propsOf (nid n) F' = Some (h n)" if mem: "n \<in> set extra"
  proof -
    have "h n \<in> set (allProps F')" "nid (h n) = nid n" using s h mem by auto
    then show ?thesis using propsOf_iff[OF d'] by simp
  qed
qed

lemma hasClass_propsOf:
  "hasClass c i pg = (case propsOf i (forest pg) of None \<Rightarrow> False | Some n \<Rightarrow> c \<in> set (classList n))"
  by (simp add: hasClass_def propsOf_def split: option.splits)

lemma elementValue_propsOf:
  "elementValue i pg = (case propsOf i (forest pg) of None \<Rightarrow> [] | Some n \<Rightarrow> elValue n)"
  by (simp add: elementValue_def propsOf_def split: option.splits)



lemma isError_classListAdd [simp]:
  "matchesSel errorMessageSel (classListAdd ''field-error'' n) = matchesSel errorMessageSel n"
  by (simp add: errorMessageSel_def classListAdd_def)

lemma isError_classListRemove [simp]:
  "matchesSel errorMessageSel (classListRemove ''field-error'' n) = matchesSel errorMessageSel n"
  by (simp add: errorMessageSel_def classListRemove_def)

lemma isError_textContent [simp]:
  "matchesSel errorMessageSel (assignText s n) = matchesSel errorMessageSel n"
  by (simp add: errorMessageSel_def)

lemma filter_find_unique:
  "length (filter P xs) \<le> 1 \<Longrightarrow> find P xs = Some x \<Longrightarrow> y \<in> set xs \<Longrightarrow> P y \<Longrightarrow> y = x"
proof (induction xs)
  case Nil
  then show ?case by simp
next
  case (Cons a xs)
  show ?case
  proof (cases "P a")
    case True
    then have "filter P xs = []" "a = x" using Cons.prems by auto
    then show ?thesis using Cons.prems(3,4) by (auto simp: filter_empty_conv)
  next
    case False
    then show ?thesis using Cons by auto
  qed
qed

lemma find_None_filter: "find P xs = None \<longleftrightarrow> filter P xs = []"
  by (induction xs) auto

lemma props_pruneAll_subset: "set (allProps (pruneAll i F)) \<subseteq> set (allProps F)"
  by (induction F rule: forest_induct) auto

lemma pruneAll_no_error:
  assumes "\<And>y. y \<in> set (allNodes F) \<Longrightarrow> isError y \<Longrightarrow> eid y = i"
  shows "filter isError (allNodes (pruneAll i F)) = []"
proof -
  have "\<not> isError y" if y: "y \<in> set (allNodes (pruneAll i F))" for y
  proof
    assume e: "isError y"
    have "props y \<in> set (allProps F)"
      using y props_pruneAll_subset[of i F] by (auto simp: allProps_def)
    then obtain z where z: "z \<in> set (allNodes F)" "props z = props y" by (auto simp: allProps_def)
    then have "isError z" using e by (simp add: isError_def)
    then have "eid z = i" using assms z(1) by blast
    then have "eid y = i" using z(2) by (simp add: eid_def)
    then have "i \<in> set (ids (pruneAll i F))" using y by (auto simp: ids_def)
    then show False using removed_absent by blast
  qed
  then show ?thesis by (simp add: filter_empty_conv)
qed

lemma errorNodes_eq:
  assumes "parentElement el (forest pg) = Some p" "getElem p (forest pg) = Some e"
  shows "errorNodes el pg = filter isError (allNodes (kids e))"
  using assms by (simp add: errorNodes_def descendants_def isError_def[abs_def])

text \<open>The error-message nodes of the container before the class of the field changes.\<close>

lemma errorNodes_before:
  assumes par: "parentElement el (forest pg) = Some p"
    and ep: "getElem p (map (updateProps el f) (forest pg)) = Some ep"
    and f: "\<And>n. nid (f n) = nid n" "\<And>n. matchesSel errorMessageSel (f n) = matchesSel errorMessageSel n"
  shows "filter isError (allNodes (kids ep)) = map (updateProps el f) (errorNodes el pg)"
proof -
  obtain e0 where e0: "getElem p (forest pg) = Some e0" "ep = updateProps el f e0"
    using ep f(1) by (auto simp: getElem_updateProps)
  have "isError (updateProps el f y) = isError y" for y
    using f(2) by (simp add: isError_def props_updateProps)
  then have "filter isError (map (updateProps el f) ys) = map (updateProps el f) (filter isError ys)" for ys
    by (induction ys) auto
  then show ?thesis
    using errorNodes_eq[OF par e0(1)] e0(2) by (simp add: kids_updateProps allNodes_updateProps)
qed

lemma roots_are_nodes: "set F \<subseteq> set (allNodes F)"
  by (induction F rule: forest_induct) auto

lemma showError_effect:
  assumes wf: "wellFormed pg" and par: "parentElement el (forest pg) = Some p"
  obtains pg' where
    "showError el msg pg = Inr pg'"
    "wellFormed pg'"
    "parentElement el (forest pg') = Some p"
    "hasClass ''field-error'' el pg'"
    "\<And>j c. j \<noteq> el \<or> c \<noteq> ''field-error'' \<Longrightarrow> hasClass c j pg' = hasClass c j pg \<or>
        (j \<notin> set (ids (forest pg)) \<and> (hasClass c j pg' \<longrightarrow> c = ''error-message''))"
    "\<And>j. \<not> hasClass ''error-message'' j pg \<Longrightarrow> elementValue j pg' = elementValue j pg"
    "set (ids (forest pg)) \<subseteq> set (ids (forest pg'))"
    "length (errorNodes el pg) \<le> 1 \<Longrightarrow> errorMessages el pg' = [msg]"
    "errorMessages el pg' \<noteq> [] \<and> last (errorMessages el pg') = msg"
    "document pg' = document pg" "listeners pg' = listeners pg" "timers pg' = timers pg"
    "now pg' = now pg" "nextId pg \<le> nextId pg'"
proof -
  obtain pg' ep er x extra where s:
    "showError el msg pg = Inr pg'"
    "getElem p (map (updateProps el (classListAdd ''field-error'')) (forest pg)) = Some ep"
    "el \<in> set (map eid (kids ep))"
    "getElem p (forest pg') =
       Some (Elem (props ep) (pruneAll er (kids ep) @ [Elem (assignText msg (props x)) []]))"
    "eid x = er" "isError x"
    "find isError (allNodes (kids ep)) = (if extra = [] then Some x else None)"
    "mset (allProps (forest pg')) =
       image_mset (putText er msg) (mset (map (addMark el) (allProps (forest pg)) @ extra))"
    "extra = [] \<and> nextId pg' = nextId pg \<or>
     extra = [props x] \<and> er = nextId pg \<and> nextId pg' = Suc (nextId pg) \<and>
       classList (props x) = [''error-message''] \<and> elValue (props x) = [] \<and> tagName (props x) = ''div''"
    "document pg' = document pg" "listeners pg' = listeners pg" "timers pg' = timers pg"
    "now pg' = now pg"
    by (rule showError_spec[OF wf par, of msg])
  let ?F = "forest pg" and ?F' = "forest pg'"
  let ?e' = "Elem (assignText msg (props x)) []"
  have d: "distinct (ids ?F)" using wf by (simp add: wellFormed_def)
  have im: "mset (ids ?F') = mset (ids ?F) + mset (map nid extra)" by (rule showError_ids[OF s(8)])
  have nx: "nid (props x) = er" using s(5) by (simp add: eid_def)
  have wf': "wellFormed pg'"
    by (rule wellFormedI[OF im wf refl refl]) (use s(9) nx in auto)
  then have d': "distinct (ids ?F')" by (simp add: wellFormed_def)
  have sub: "set (ids ?F) \<subseteq> set (ids ?F')"
    using im by (metis mset_append set_append set_mset_mset Un_upper1)
  \<comment> \<open>the parent\<close>
  have "el \<in> set (map eid (pruneAll er (kids ep) @ [?e']))"
    using s(3) nx by (cases "el = er") (auto simp: roots_pruneAll)
  then have par': "parentElement el ?F' = Some p"
    using parent_intro[OF d' s(4)] by simp
  \<comment> \<open>the properties of each element\<close>
  have ex: "\<And>n. n \<in> set extra \<Longrightarrow> addMark el n = n"
  proof -
    fix n assume "n \<in> set extra"
    then have "n = props x" "er = nextId pg" using s(9) by auto
    moreover have "el \<in> set (ids ?F)" using par parentElement_absent by fastforce
    ultimately show "addMark el n = n" using wellFormed_bound[OF wf] nx by (auto simp: addMark_def)
  qed
  have m'': "mset (allProps ?F') =
      image_mset (\<lambda>n. putText er msg (addMark el n)) (mset (allProps ?F @ extra))"
  proof -
    have "map (addMark el) extra = extra" using ex by (intro map_id_on) auto
    then have "map (addMark el) (allProps ?F) @ extra = map (addMark el) (allProps ?F @ extra)"
      by simp
    then have "mset (allProps ?F') =
        image_mset (putText er msg) (image_mset (addMark el) (mset (allProps ?F @ extra)))"
      using s(8) by (metis mset_map)
    then show ?thesis by (simp add: image_mset.compositionality comp_def)
  qed
  have old: "\<And>j. j \<in> set (ids ?F) \<Longrightarrow>
      propsOf j ?F' = map_option (\<lambda>n. putText er msg (addMark el n)) (propsOf j ?F)"
    by (rule propsOf_image(1)[OF d d' m'']) simp
  have elin: "el \<in> set (ids ?F)" using par parentElement_absent by fastforce
  obtain n0 where n0: "propsOf el ?F = Some n0" "nid n0 = el"
    using elin propsOf_None_iff[of el ?F] propsOf_iff[OF d] by (cases "propsOf el ?F") auto
  have cl: "hasClass ''field-error'' el pg'"
    using old[OF elin] n0
    by (simp add: hasClass_propsOf putText_def addMark_def classListAdd_def)
  have others: "hasClass c j pg' = hasClass c j pg \<or>
        (j \<notin> set (ids ?F) \<and> (hasClass c j pg' \<longrightarrow> c = ''error-message''))"
    if a: "j \<noteq> el \<or> c \<noteq> ''field-error''" for j c
  proof (cases "j \<in> set (ids ?F)")
    case True
    obtain n where n: "propsOf j ?F = Some n" "nid n = j"
      using True propsOf_None_iff[of j ?F] propsOf_iff[OF d] by (cases "propsOf j ?F") auto
    show ?thesis using old[OF True] n a
      by (auto simp: hasClass_propsOf putText_def addMark_def classListAdd_def)
  next
    case False
    show ?thesis
    proof (cases "propsOf j ?F'")
      case None
      then show ?thesis using False by (simp add: hasClass_propsOf)
    next
      case (Some n')
      then have "n' \<in> set (allProps ?F')" "nid n' = j" using propsOf_iff[OF d'] by auto
      then have "n' \<in> (\<lambda>n. putText er msg (addMark el n)) ` (set (allProps ?F) \<union> set extra)"
        using m'' by (metis set_mset_mset set_image_mset set_append)
      then obtain n where n: "n \<in> set (allProps ?F) \<union> set extra" "n' = putText er msg (addMark el n)"
        by blast
      have "n \<notin> set (allProps ?F)" using False n(2) \<open>nid n' = j\<close> by (auto simp: ids_allProps)
      then have "n \<in> set extra" using n(1) by simp
      then have "classList n = [''error-message'']" "addMark el n = n" using s(9) ex by auto
      then have "classList n' = [''error-message'']" using n(2) by (simp add: putText_def)
      then show ?thesis using False Some by (simp add: hasClass_propsOf)
    qed
  qed
  have vals: "elementValue j pg' = elementValue j pg" if ne: "\<not> hasClass ''error-message'' j pg" for j
  proof (cases "j \<in> set (ids ?F)")
    case True
    obtain n where n: "propsOf j ?F = Some n" "nid n = j"
      using True propsOf_None_iff[of j ?F] propsOf_iff[OF d] by (cases "propsOf j ?F") auto
    have "j \<noteq> er"
    proof
      assume je: "j = er"
      have "Elem (assignText msg (props x)) [] \<in> set (kids (Elem (props ep) (pruneAll er (kids ep) @ [?e'])))"
        by simp
      then have "?e' \<in> set (allNodes (kids (Elem (props ep) (pruneAll er (kids ep) @ [?e']))))"
        using roots_are_nodes by blast
      then have "?e' \<in> set (allNodes ?F')"
        using allNodes_closed[OF getElem_Some_mem[OF s(4)]] by blast
      then have "assignText msg (props x) \<in> set (allProps ?F')" by (force simp: allProps_def)
      then have "propsOf er ?F' = Some (assignText msg (props x))"
        using propsOf_iff[OF d'] nx by simp
      then have "assignText msg (props x) = putText er msg (addMark el n)"
        using old[OF True] n je by simp
      then have "classList (assignText msg (props x)) = classList (putText er msg (addMark el n))"
        by simp
      then have "classList (props x) = classList (addMark el n)"
        using n(2) je by (simp add: putText_def)
      moreover have "''error-message'' \<in> set (classList (props x))"
        using s(6) by (simp add: isError_def errorMessageSel_def)
      ultimately have "''error-message'' \<in> set (classList n)"
        by (auto simp: addMark_def classListAdd_def split: if_splits)
      then show False using ne n(1) by (simp add: hasClass_propsOf)
    qed
    then show ?thesis using old[OF True] n
      by (simp add: elementValue_propsOf putText_def addMark_def classListAdd_def)
  next
    case False
    show ?thesis
    proof (cases "propsOf j ?F'")
      case None
      then show ?thesis using False propsOf_None_iff[of j ?F] by (simp add: elementValue_propsOf)
    next
      case (Some n')
      then have "n' \<in> set (allProps ?F')" "nid n' = j" using propsOf_iff[OF d'] by auto
      then have "n' \<in> (\<lambda>n. putText er msg (addMark el n)) ` (set (allProps ?F) \<union> set extra)"
        using m'' by (metis set_mset_mset set_image_mset set_append)
      then obtain n where n: "n \<in> set (allProps ?F) \<union> set extra" "n' = putText er msg (addMark el n)"
        by blast
      have "n \<notin> set (allProps ?F)" using False n(2) \<open>nid n' = j\<close> by (auto simp: ids_allProps)
      then have "n \<in> set extra" using n(1) by simp
      then have "elValue n = []" "tagName n = ''div''" "addMark el n = n" using s(9) ex by auto
      then have "elValue n' = []" using n(2) by (simp add: putText_def assignText_def)
      then show ?thesis using False Some propsOf_None_iff[of j ?F] by (simp add: elementValue_propsOf)
    qed
  qed
  \<comment> \<open>the error-message nodes of the container\<close>
  have msgs: "errorMessages el pg' = [msg]" if le: "length (errorNodes el pg) \<le> 1"
  proof -
    have fe: "filter isError (allNodes (kids ep)) =
        map (updateProps el (classListAdd ''field-error'')) (errorNodes el pg)"
      by (rule errorNodes_before[OF par s(2)]) simp_all
    then have le': "length (filter isError (allNodes (kids ep))) \<le> 1" using le by simp
    have only: "\<And>y. y \<in> set (allNodes (kids ep)) \<Longrightarrow> isError y \<Longrightarrow> eid y = er"
    proof -
      fix y assume y: "y \<in> set (allNodes (kids ep))" "isError y"
      show "eid y = er"
      proof (cases "extra = []")
        case True
        then have "find isError (allNodes (kids ep)) = Some x" using s(7) by simp
        then have "y = x" using filter_find_unique[OF le' _ y] by blast
        then show ?thesis using s(5) by simp
      next
        case False
        then have "filter isError (allNodes (kids ep)) = []" using s(7) by (simp add: find_None_filter)
        then show ?thesis using y by (auto simp: filter_empty_conv)
      qed
    qed
    have "filter isError (allNodes (pruneAll er (kids ep))) = []"
      by (rule pruneAll_no_error) (use only in blast)
    moreover have "isError ?e'" using s(6) by (simp add: isError_def)
    ultimately have "errorNodes el pg' = [?e']"
      using errorNodes_eq[OF par' s(4)] by simp
    then show ?thesis by (simp add: errorMessages_def)
  qed
  have lastm: "errorMessages el pg' \<noteq> [] \<and> last (errorMessages el pg') = msg"
  proof -
    have "isError ?e'" using s(6) by (simp add: isError_def)
    then have "errorNodes el pg' = filter isError (allNodes (pruneAll er (kids ep))) @ [?e']"
      using errorNodes_eq[OF par' s(4)] by simp
    then show ?thesis by (simp add: errorMessages_def)
  qed
  have nxt: "nextId pg \<le> nextId pg'" using s(9) by auto
  show ?thesis
    apply (rule that[of pg'])
                apply (rule s(1))
               apply (rule wf')
              apply (rule par')
             apply (rule cl)
            apply (erule others)
           apply (erule vals)
          apply (rule sub)
         apply (erule msgs)
        apply (rule lastm)
       apply (rule s(10))
      apply (rule s(11))
     apply (rule s(12))
    apply (rule s(13))
    apply (rule nxt)
    done
qed



lemma updateProps_fix:
  "(\<And>n. n \<in> set (allProps F) \<Longrightarrow> nid n = i \<Longrightarrow> f n = n) \<Longrightarrow> map (updateProps i f) F = F"
proof (induction F rule: forest_induct)
  case Nil
  then show ?case by simp
next
  case (Tree n ks F)
  have "map (updateProps i f) ks = ks" using Tree by simp
  moreover have "map (updateProps i f) F = F" using Tree by simp
  moreover have "nid n = i \<Longrightarrow> f n = n" using Tree.prems by simp
  ultimately show ?case by auto
qed

lemma classListRemove_idem: "classListRemove c (classListRemove c n) = classListRemove c n"
  by (simp add: classListRemove_def)

lemma clearError_effect:
  assumes wf: "wellFormed pg" and par: "parentElement el (forest pg) = Some p"
  obtains pg' where
    "clearError el pg = Inr pg'"
    "wellFormed pg'"
    "\<not> hasClass ''field-error'' el pg'"
    "\<And>j c. j \<noteq> el \<or> c \<noteq> ''field-error'' \<Longrightarrow> hasClass c j pg' = hasClass c j pg"
    "\<And>j. elementValue j pg' = elementValue j pg"
    "set (ids (forest pg')) = set (ids (forest pg))"
    "length (errorNodes el pg) \<le> 1 \<Longrightarrow> errorNodes el pg' = []"
    "length (errorNodes el pg) \<le> 1 \<Longrightarrow> \<not> hasClass ''error-message'' el pg \<Longrightarrow>
       parentElement el (forest pg') = Some p \<and> clearError el pg' = Inr pg'"
    "document pg' = document pg" "listeners pg' = listeners pg" "timers pg' = timers pg"
    "now pg' = now pg" "nextId pg' = nextId pg"
proof -
  let ?rm = "classListRemove ''field-error''"
  let ?F1 = "map (updateProps el ?rm) (forest pg)"
  obtain pg' ep where s:
    "clearError el pg = Inr pg'"
    "getElem p ?F1 = Some ep"
    "el \<in> set (map eid (kids ep))"
    "mset (allProps (forest pg')) = mset (map (dropMark el) (allProps (forest pg)))"
    "find isError (allNodes (kids ep)) = None \<and> forest pg' = ?F1 \<or>
     (\<exists>x. find isError (allNodes (kids ep)) = Some x \<and>
        getElem p (forest pg') = Some (Elem (props ep) (pruneAll (eid x) (kids ep))) \<and>
        forest pg' = pruneAll (eid x) ?F1 @ [x])"
    "document pg' = document pg" "listeners pg' = listeners pg" "timers pg' = timers pg"
    "now pg' = now pg" "nextId pg' = nextId pg"
    by (rule clearError_spec[OF wf par])
  let ?F = "forest pg" and ?F' = "forest pg'"
  have d: "distinct (ids ?F)" using wf by (simp add: wellFormed_def)
  have i1: "ids ?F1 = ids ?F" by (simp add: ids_updateProps)
  have d1: "distinct (ids ?F1)" using d i1 by simp
  have p1: "parentElement el ?F1 = Some p" using par by (simp add: parentElement_updateProps)
  have im0: "mset (ids ?F') = mset (ids ?F)" by (rule clearError_ids[OF s(4)])
  then have im: "mset (ids ?F') = mset (ids ?F) + mset ([]::nat list)" by simp
  have wf': "wellFormed pg'"
    by (rule wellFormedI[OF im wf refl refl]) (use s(10) in auto)
  then have d': "distinct (ids ?F')" by (simp add: wellFormed_def)
  have same: "set (ids ?F') = set (ids ?F)" using im0 by (rule mset_eq_setD)
  have m: "mset (allProps ?F') = image_mset (dropMark el) (mset (allProps ?F @ []))"
    using s(4) by simp
  have old: "\<And>j. j \<in> set (ids ?F) \<Longrightarrow> propsOf j ?F' = map_option (dropMark el) (propsOf j ?F)"
    by (rule propsOf_image(1)[OF d d' m]) simp
  have new: "\<And>j. j \<notin> set (ids ?F) \<Longrightarrow> propsOf j ?F' = None \<and> propsOf j ?F = None"
    using same by (simp add: propsOf_None_iff)
  have cl: "\<not> hasClass ''field-error'' el pg'"
  proof (cases "el \<in> set (ids ?F)")
    case True
    obtain n where n: "propsOf el ?F = Some n" "nid n = el"
      using True propsOf_None_iff[of el ?F] propsOf_iff[OF d] by (cases "propsOf el ?F") auto
    show ?thesis using old[OF True] n
      by (simp add: hasClass_propsOf dropMark_def classListRemove_def)
  next
    case False
    then show ?thesis using new by (simp add: hasClass_propsOf)
  qed
  have others: "hasClass c j pg' = hasClass c j pg" if a: "j \<noteq> el \<or> c \<noteq> ''field-error''" for j c
  proof (cases "j \<in> set (ids ?F)")
    case True
    obtain n where n: "propsOf j ?F = Some n" "nid n = j"
      using True propsOf_None_iff[of j ?F] propsOf_iff[OF d] by (cases "propsOf j ?F") auto
    show ?thesis using old[OF True] n a
      by (auto simp: hasClass_propsOf dropMark_def classListRemove_def)
  next
    case False
    then show ?thesis using new by (simp add: hasClass_propsOf)
  qed
  have vals: "elementValue j pg' = elementValue j pg" for j
  proof (cases "j \<in> set (ids ?F)")
    case True
    obtain n where n: "propsOf j ?F = Some n"
      using True propsOf_None_iff[of j ?F] by (cases "propsOf j ?F") auto
    show ?thesis using old[OF True] n
      by (simp add: elementValue_propsOf dropMark_def classListRemove_def)
  next
    case False
    then show ?thesis using new by (simp add: elementValue_propsOf)
  qed
  have fe: "filter isError (allNodes (kids ep)) = map (updateProps el ?rm) (errorNodes el pg)"
    by (rule errorNodes_before[OF par s(2)]) simp_all
  \<comment> \<open>the container after the call, when it held at most one error-message node\<close>
  have after: "errorNodes el pg' = [] \<and>
      (\<not> hasClass ''error-message'' el pg \<longrightarrow>
         parentElement el ?F' = Some p \<and> querySelector errorMessageSel p ?F' = None)"
    if le: "length (errorNodes el pg) \<le> 1"
  proof -
    have le': "length (filter isError (allNodes (kids ep))) \<le> 1" using fe le by simp
    from s(5) show ?thesis
    proof
      assume n: "find isError (allNodes (kids ep)) = None \<and> ?F' = ?F1"
      then have "filter isError (allNodes (kids ep)) = []" by (simp add: find_None_filter)
      moreover have "parentElement el ?F' = Some p" "getElem p ?F' = Some ep" using n p1 s(2) by simp_all
      moreover have "querySelector errorMessageSel p ?F' = None"
        using n s(2) by (simp add: querySelector_def descendants_def isError_def[abs_def])
      ultimately show ?thesis using errorNodes_eq[of el pg' p ep] by simp
    next
      assume "\<exists>x. find isError (allNodes (kids ep)) = Some x \<and>
        getElem p ?F' = Some (Elem (props ep) (pruneAll (eid x) (kids ep))) \<and>
        ?F' = pruneAll (eid x) ?F1 @ [x]"
      then obtain x where x: "find isError (allNodes (kids ep)) = Some x"
          "getElem p ?F' = Some (Elem (props ep) (pruneAll (eid x) (kids ep)))"
          "?F' = pruneAll (eid x) ?F1 @ [x]"
        by blast
      have xm: "x \<in> set (allNodes (kids ep))" "isError x" using find_Some_mem[OF x(1)] by auto
      have only: "\<And>y. y \<in> set (allNodes (kids ep)) \<Longrightarrow> isError y \<Longrightarrow> eid y = eid x"
        using filter_find_unique[OF le' x(1)] by blast
      have none: "filter isError (allNodes (pruneAll (eid x) (kids ep))) = []"
        by (rule pruneAll_no_error) (use only in blast)
      have q: "querySelector errorMessageSel p ?F' = None"
        using x(2) none by (simp add: querySelector_def descendants_def isError_def[abs_def] find_None_filter)
      show ?thesis
      proof (cases "el = eid x")
        case False
        then have "el \<in> set (map eid (pruneAll (eid x) (kids ep)))" using s(3) by (simp add: roots_pruneAll)
        then have par': "parentElement el ?F' = Some p" using parent_intro[OF d' x(2)] by simp
        then show ?thesis using errorNodes_eq[OF par' x(2)] none q by simp
      next
        case True
        have xF1: "x \<in> set (allNodes ?F1)"
          using xm(1) allNodes_closed[OF getElem_Some_mem[OF s(2)]] by blast
        then have gx: "getElem el ?F1 = Some x" using getElem_iff[OF d1] True by simp
        have "el \<notin> set (ids (kids x))" using node_of_id(2)[OF d1 gx] .
        then have "parentElement el [x] = None"
          using roots_in_ids[of "kids x"] parentElement_absent[of el "kids x"] by (cases x) auto
        moreover have "parentElement el (pruneAll el ?F1) = None"
          by (rule parentElement_absent) (rule removed_absent)
        ultimately have "parentElement el ?F' = None"
          using x(3) True by (simp add: parentElement_def find_append)
        then have en: "errorNodes el pg' = []" by (simp add: errorNodes_def)
        have "propsOf el ?F1 = Some (props x)" using gx by (simp add: propsOf_def)
        moreover have "propsOf el ?F1 = map_option (dropMark el) (propsOf el ?F)"
        proof (cases "getElem el ?F")
          case None
          then show ?thesis by (simp add: propsOf_def getElem_updateProps)
        next
          case (Some e0)
          then show ?thesis using getElem_Some_eid[OF Some]
            by (simp add: propsOf_def getElem_updateProps props_updateProps dropMark_def eid_def)
        qed
        ultimately obtain n0 where n0: "propsOf el ?F = Some n0" "props x = dropMark el n0" by auto
        have "''error-message'' \<in> set (classList (props x))"
          using xm(2) by (simp add: isError_def errorMessageSel_def)
        then have "hasClass ''error-message'' el pg"
          using n0 by (auto simp: hasClass_propsOf dropMark_def classListRemove_def split: if_splits)
        then show ?thesis using en by simp
      qed
    qed
  qed
  have again: "parentElement el ?F' = Some p \<and> clearError el pg' = Inr pg'"
    if le: "length (errorNodes el pg) \<le> 1" and ne: "\<not> hasClass ''error-message'' el pg"
  proof -
    have a: "parentElement el ?F' = Some p" "querySelector errorMessageSel p ?F' = None"
      using after[OF le] ne by auto
    have "map (updateProps el ?rm) ?F' = ?F'"
    proof (rule updateProps_fix)
      fix n assume n: "n \<in> set (allProps ?F')" "nid n = el"
      have "set (allProps ?F') = set (map (dropMark el) (allProps ?F))"
        using s(4) by (rule mset_eq_setD)
      then have "n \<in> dropMark el ` set (allProps ?F)" using n(1) by simp
      then obtain k where k: "n = dropMark el k" by blast
      then have "nid k = el" using n(2) by simp
      then have "n = ?rm k" using k by (simp add: dropMark_def)
      then show "?rm n = n" by (simp add: classListRemove_idem)
    qed
    then have "clearError el pg' = Inr pg'" using a by (simp add: clearError_def Let_def)
    then show ?thesis using a by simp
  qed
  have after1: "length (errorNodes el pg) \<le> 1 \<Longrightarrow> errorNodes el pg' = []" using after by blast
  show ?thesis
    apply (rule that[of pg'])
                apply (rule s(1))
               apply (rule wf')
              apply (rule cl)
             apply (erule others)
            apply (rule vals)
           apply (rule same)
          apply (erule after1)
         apply (erule again, assumption)
        apply (rule s(6))
       apply (rule s(7))
      apply (rule s(8))
     apply (rule s(9))
    apply (rule s(10))
    done
qed



section \<open>Marking, clearing and validating a field\<close>

lemma errorNodes_length: "length (errorNodes el pg) = length (errorMessages el pg)"
  by (simp add: errorMessages_def)

lemma show_twice:
  assumes wf: "wellFormed pg" and par: "parentElement el (forest pg) = Some p"
    and le: "length (errorNodes el pg) \<le> 1"
  shows "\<exists>pg1 pg2. showError el msg pg = Inr pg1 \<and> showError el msg pg1 = Inr pg2 \<and>
           errorMessages el pg1 = [msg] \<and> errorMessages el pg2 = [msg] \<and>
           hasClass ''field-error'' el pg2"
proof -
  obtain pg1 where 1: "showError el msg pg = Inr pg1" "wellFormed pg1"
      "parentElement el (forest pg1) = Some p" "errorMessages el pg1 = [msg]"
    using showError_effect[OF wf par, of msg] le by metis
  have le1: "length (errorNodes el pg1) \<le> 1" using 1(4) by (simp add: errorNodes_length)
  obtain pg2 where 2: "showError el msg pg1 = Inr pg2" "hasClass ''field-error'' el pg2"
      "errorMessages el pg2 = [msg]"
    using showError_effect[OF 1(2) 1(3), of msg] le1 by metis
  show ?thesis using 1 2 by blast
qed

lemma clear_twice:
  assumes wf: "wellFormed pg" and par: "parentElement el (forest pg) = Some p"
    and le: "length (errorNodes el pg) \<le> 1" and ne: "\<not> hasClass ''error-message'' el pg"
  shows "\<exists>pg1. clearError el pg = Inr pg1 \<and> clearError el pg1 = Inr pg1 \<and>
           errorNodes el pg1 = [] \<and> \<not> hasClass ''field-error'' el pg1"
proof -
  obtain pg1 where "clearError el pg = Inr pg1" "\<not> hasClass ''field-error'' el pg1"
      "errorNodes el pg1 = []" "clearError el pg1 = Inr pg1"
    using clearError_effect[OF wf par] le ne by metis
  then show ?thesis by blast
qed

lemmas page_eval =
  showError_def clearError_def twoErrorsPage_def selfErrorPage_def samplePage_def element_def
  querySelector_def attrMatches_def descendants_def errorMessageSel_def classListAdd_def classListRemove_def
  setTextContent_def appendChild_def remove_def createErrorElement_def createElement_def
  errorMessages_def errorNodes_def eid_def js_def Let_def

text \<open>
  C8, as stated, fails in two ways. When the container of the field already holds two
  error-message nodes, marking twice leaves two of them, both with the message: each
  call takes the first one it finds and moves it to the end. When the field is itself
  the error-message node of its container, the first clearing removes the field from
  the document, and the second one raises, since the field has no parent any more.
\<close>

theorem error_marking_counterexample:
  "(case showError 3 (js ''m'') twoErrorsPage of
      Inl err \<Rightarrow> []
    | Inr pg1 \<Rightarrow>
        (case showError 3 (js ''m'') pg1 of Inl err \<Rightarrow> [] | Inr pg2 \<Rightarrow> errorMessages 3 pg2))
     = [js ''m'', js ''m''] \<and>
   (case clearError 3 selfErrorPage of
      Inl err \<Rightarrow> False
    | Inr pg1 \<Rightarrow> clearError 3 pg1 = Inl TypeError)"
  by (simp add: page_eval)

text \<open>
  C8, amended: for every field element that has a container holding at most one
  error-message node, and every message, calling \<open>showError\<close> twice with the same
  message raises nothing and leaves exactly one error-message node in the container,
  with that text, as one call does; when the element is moreover not an error-message
  node itself, calling \<open>clearError\<close> twice raises nothing and leaves no error-message
  node, and the second call changes nothing.
\<close>

theorem error_marking_idempotent:
  "wellFormed pg \<Longrightarrow> parentElement el (forest pg) = Some p \<Longrightarrow> length (errorNodes el pg) \<le> 1 \<Longrightarrow>
   (\<exists>pg1 pg2. showError el msg pg = Inr pg1 \<and> showError el msg pg1 = Inr pg2 \<and>
      errorMessages el pg1 = [msg] \<and> errorMessages el pg2 = [msg] \<and>
      hasClass ''field-error'' el pg2) \<and>
   (\<not> hasClass ''error-message'' el pg \<longrightarrow>
      (\<exists>pg1. clearError el pg = Inr pg1 \<and> clearError el pg1 = Inr pg1 \<and>
         errorNodes el pg1 = [] \<and> \<not> hasClass ''field-error'' el pg1))"
  using show_twice clear_twice by blast

theorem error_marking_idempotent_witness:
  "wellFormed samplePage \<and> parentElement 5 (forest samplePage) = Some 4 \<and>
   length (errorNodes 5 samplePage) \<le> 1 \<and> \<not> hasClass ''error-message'' 5 samplePage \<and>
   (\<exists>pg1 pg2. showError 5 (js ''short'') samplePage = Inr pg1 \<and>
      showError 5 (js ''short'') pg1 = Inr pg2 \<and>
      errorMessages 5 pg1 = [js ''short''] \<and> errorMessages 5 pg2 = [js ''short''] \<and>
      hasClass ''field-error'' 5 pg2) \<and>
   (\<exists>pg1. clearError 5 samplePage = Inr pg1 \<and> clearError 5 pg1 = Inr pg1 \<and>
      errorNodes 5 pg1 = [] \<and> \<not> hasClass ''field-error'' 5 pg1)"
proof -
  have h: "wellFormed samplePage" "parentElement 5 (forest samplePage) = Some 4"
    "length (errorNodes 5 samplePage) \<le> 1"
    by (simp_all add: wellFormed_def samplePage_def element_def errorNodes_def descendants_def
        errorMessageSel_def)
  have n: "\<not> hasClass ''error-message'' 5 samplePage"
    by (simp add: hasClass_def samplePage_def element_def)
  show ?thesis
    using h n error_marking_idempotent[OF h, of "js ''short''"] by blast
qed

text \<open>
  C9, as stated, fails when the container of the field holds two error-message nodes:
  the input handler removes the first one only, and one is left.
\<close>

theorem input_clears_counterexample:
  "(case snd (runHandler (OnInput boundValidator 3) freshEvent twoErrorsPage) of
      Inl err \<Rightarrow> 0
    | Inr (rs, pg') \<Rightarrow> length (errorNodes 3 pg')) = 1"
  by (simp add: page_eval)

lemma addFieldListeners_keeps:
  "addFieldListeners this fds q = Inr pg1 \<Longrightarrow> form this = Some f \<Longrightarrow>
   forest pg1 = forest q \<and> set (listeners q) \<subseteq> set (listeners pg1)"
proof (induction fds arbitrary: q)
  case Nil
  then show ?case by simp
next
  case (Cons c cs)
  show ?case
  proof (cases "querySelector (selector c) f (forest q)")
    case None
    then have "addFieldListeners this cs q = Inr pg1" using Cons.prems by simp
    then show ?thesis using Cons.IH Cons.prems(2) by blast
  next
    case (Some x)
    let ?q = "q\<lparr>listeners := listeners q @ [(x, ''blur'', OnBlur this x), (x, ''input'', OnInput this x)]\<rparr>"
    have "addFieldListeners this cs ?q = Inr pg1" using Cons.prems Some by simp
    then have "forest pg1 = forest ?q \<and> set (listeners ?q) \<subseteq> set (listeners pg1)"
      using Cons.IH Cons.prems(2) by blast
    then show ?thesis by simp
  qed
qed

lemma addFieldListeners_registers:
  "addFieldListeners this fds pg = Inr pg1 \<Longrightarrow> form this = Some f \<Longrightarrow> fd \<in> set fds \<Longrightarrow>
   querySelector (selector fd) f (forest pg) = Some el \<Longrightarrow>
   (el, ''input'', OnInput this el) \<in> set (listeners pg1)"
proof (induction fds arbitrary: pg)
  case Nil
  then show ?case by simp
next
  case (Cons a fds)
  show ?case
  proof (cases "querySelector (selector a) f (forest pg)")
    case None
    then have r: "addFieldListeners this fds pg = Inr pg1" "fd \<in> set fds"
      using Cons.prems by auto
    show ?thesis using Cons.IH[OF r(1) Cons.prems(2) r(2) Cons.prems(4)] .
  next
    case (Some x)
    let ?pg = "pg\<lparr>listeners := listeners pg @ [(x, ''blur'', OnBlur this x), (x, ''input'', OnInput this x)]\<rparr>"
    have r: "addFieldListeners this fds ?pg = Inr pg1" using Cons.prems(1,2) Some by simp
    have keep: "set (listeners ?pg) \<subseteq> set (listeners pg1)"
      using addFieldListeners_keeps[OF r Cons.prems(2)] by blast
    show ?thesis
    proof (cases "fd = a")
      case True
      then have "x = el" using Some Cons.prems(4) by simp
      then show ?thesis using keep by auto
    next
      case False
      then have "fd \<in> set fds" using Cons.prems(3) by simp
      moreover have "querySelector (selector fd) f (forest ?pg) = Some el" using Cons.prems(4) by simp
      ultimately show ?thesis using Cons.IH[OF r Cons.prems(2)] by blast
    qed
  qed
qed

text \<open>
  C9, amended: for every declared field whose element is present when the validator
  is set up, \<open>init\<close> registers an input handler on the element; on every page where
  the container of the element holds at most one error-message node, running that
  handler raises nothing, evaluates no rule, leaves the value as it is, and leaves the
  field with no error marker (the class \<^verbatim>\<open>field-error\<close> removed, no error-message
  node in the container), whatever the value is.
\<close>

theorem input_clears_unconditionally:
  "init this pg0 = Inr pg1 \<Longrightarrow> form this = Some f \<Longrightarrow> fields' this = Some tbl \<Longrightarrow>
   fd \<in> set (map snd tbl) \<Longrightarrow> querySelector (selector fd) f (forest pg0) = Some el \<Longrightarrow>
   wellFormed pg \<Longrightarrow> parentElement el (forest pg) = Some p \<Longrightarrow> length (errorNodes el pg) \<le> 1 \<Longrightarrow>
   (el, ''input'', OnInput this el) \<in> set (listeners pg1) \<and>
   (\<exists>pg'. runHandler (OnInput this el) e pg = (e, Inr ([], pg')) \<and>
      \<not> hasClass ''field-error'' el pg' \<and> errorNodes el pg' = [] \<and>
      elementValue el pg' = elementValue el pg)"
proof -
  assume i: "init this pg0 = Inr pg1" and f: "form this = Some f" and t: "fields' this = Some tbl"
    and fd: "fd \<in> set (map snd tbl)" and q: "querySelector (selector fd) f (forest pg0) = Some el"
    and wf: "wellFormed pg" and par: "parentElement el (forest pg) = Some p"
    and le: "length (errorNodes el pg) \<le> 1"
  obtain pg2 where a: "addFieldListeners this (map snd tbl) pg0 = Inr pg2"
      "pg1 = pg2\<lparr>listeners := listeners pg2 @ [(f, ''submit'', OnSubmit this)]\<rparr>"
    using i f t by (auto simp: init_def split: sum.splits)
  have "(el, ''input'', OnInput this el) \<in> set (listeners pg2)"
    using addFieldListeners_registers[OF a(1) f fd q] by simp
  then have reg: "(el, ''input'', OnInput this el) \<in> set (listeners pg1)" using a(2) by simp
  obtain pg' where c: "clearError el pg = Inr pg'" "\<not> hasClass ''field-error'' el pg'"
      "errorNodes el pg' = []" "elementValue el pg' = elementValue el pg"
    using clearError_effect[OF wf par] le by metis
  have "runHandler (OnInput this el) e pg = (e, Inr ([], pg'))" using c(1) by simp
  then show ?thesis using reg c by blast
qed



theorem input_clears_unconditionally_witness:
  "(\<exists>pg1. init boundValidator samplePage = Inr pg1 \<and>
      (5, ''input'', OnInput boundValidator 5) \<in> set (listeners pg1)) \<and>
   form boundValidator = Some 1 \<and> fields' boundValidator = Some fieldTable \<and>
   querySelector (Selector (Some ''input'') (Some (''name'', ''name'')) None) 1 (forest samplePage) = Some 5 \<and>
   wellFormed markedPage \<and> parentElement 5 (forest markedPage) = Some 4 \<and>
   length (errorNodes 5 markedPage) \<le> 1 \<and>
   hasClass ''field-error'' 5 markedPage \<and>
   \<not> fst (checkRules (elementValue 5 markedPage) [js ''required'', js ''minLength:2'']) \<and>
   (\<exists>pg'. runHandler (OnInput boundValidator 5) freshEvent markedPage = (freshEvent, Inr ([], pg')) \<and>
      \<not> hasClass ''field-error'' 5 pg' \<and> errorNodes 5 pg' = [] \<and>
      elementValue 5 pg' = elementValue 5 markedPage)"
proof -
  let ?fd = "\<lparr>selector = Selector (Some ''input'') (Some (''name'', ''name'')) None,
        rules = [js ''required'', js ''minLength:2''],
        message = js ''Name must be at least 2 characters''\<rparr>"
  obtain pg1 where i: "init boundValidator samplePage = Inr pg1"
    by (simp add: init_def boundValidator_def fieldTable_def samplePage_def element_def
        querySelector_def attrMatches_def descendants_def eid_def)
  have f: "form boundValidator = Some 1" "fields' boundValidator = Some fieldTable"
    by (simp_all add: boundValidator_def)
  have fd: "?fd \<in> set (map snd fieldTable)" by (simp add: fieldTable_def)
  have q: "querySelector (selector ?fd) 1 (forest samplePage) = Some 5"
    by (simp add: samplePage_def element_def querySelector_def attrMatches_def descendants_def eid_def)
  have h: "wellFormed markedPage" "parentElement 5 (forest markedPage) = Some 4"
    "length (errorNodes 5 markedPage) \<le> 1"
    by (simp_all add: wellFormed_def markedPage_def element_def errorNodes_def descendants_def
        errorMessageSel_def)
  have c: "hasClass ''field-error'' 5 markedPage"
    by (simp add: hasClass_def markedPage_def element_def)
  have v: "elementValue 5 markedPage = js ''x''"
    by (simp add: elementValue_def markedPage_def element_def)
  have "checkRule (js ''x'') (js ''required'')"
    by (simp add: checkRule_def trim_def js_def isWhiteSpace_def)
  moreover have "\<not> checkRule (js ''x'') (js ''minLength:2'')"
    using minLength_rule[of "js ''x''" 2] by (simp add: decimal.simps js_def)
  ultimately have r: "\<not> fst (checkRules (elementValue 5 markedPage) [js ''required'', js ''minLength:2''])"
    by (simp add: v)
  show ?thesis
    using i f q h c r input_clears_unconditionally[OF i f fd q h, of freshEvent] by auto
qed

section \<open>Validating a field\<close>


lemma checkRules_eq:
  "checkRules v rs =
     (list_all (checkRule v) rs,
      if list_all (checkRule v) rs then rs
      else takeWhile (checkRule v) rs @ [hd (dropWhile (checkRule v) rs)])"
  by (induction rs) (auto split: prod.splits)






section \<open>What marking and clearing leave alone\<close>

lemma ids_pruneAll_subset: "set (ids (pruneAll i F)) \<subseteq> set (ids F)"
  by (induction F rule: forest_induct) auto

lemma ids_emptied_subset: "set (ids (map (updateKids i (\<lambda>ks. [])) F)) \<subseteq> set (ids F)"
  by (induction F rule: forest_induct) auto

lemma updateProps_absent_elem: "i \<notin> set (ids [e]) \<Longrightarrow> updateProps i h e = e"
  using updateProps_absent[of i "[e]" h] by simp

lemma frame_updateProps:
  assumes "\<And>n. nid (h n) = nid n" "getElem q F = Some eq" "i \<notin> set (ids [eq])"
  shows "getElem q (map (updateProps i h) F) = Some eq"
  using assms by (simp add: getElem_updateProps updateProps_absent_elem)

lemma frame_updateKids:
  assumes d: "distinct (ids F)" and q: "getElem q F = Some eq" and i: "i \<notin> set (ids [eq])"
    and out: "\<And>e. getElem i F = Some e \<Longrightarrow> q \<notin> set (ids (kids e)) \<and> q \<notin> set (ids (g (kids e)))"
  shows "getElem q (map (updateKids i g) F) = Some eq"
proof (cases "getElem i F")
  case None
  then have "i \<notin> set (ids F)" by (simp add: getElem_None_iff)
  then show ?thesis using q by (simp add: updateKids_absent)
next
  case (Some e)
  have "getElem q (map (updateKids i g) F) = map_option (updateKids i g) (getElem q F)"
    by (rule getElem_updateKids[OF d Some]) (use out[OF Some] in simp)
  then show ?thesis using q i by (simp add: updateKids_absent_elem)
qed

lemma frame_pruneAll:
  assumes d: "distinct (ids F)" and q: "getElem q F = Some eq" and i: "i \<notin> set (ids [eq])"
    and out: "\<And>e. getElem i F = Some e \<Longrightarrow> q \<notin> set (ids [e])"
  shows "getElem q (pruneAll i F) = Some eq"
proof (cases "getElem i F")
  case None
  then have "i \<notin> set (ids F)" by (simp add: getElem_None_iff)
  then show ?thesis using q by (simp add: pruneAll_absent)
next
  case (Some e)
  have "getElem q (pruneAll i F) = map_option (prune i) (getElem q F)"
    by (rule getElem_pruneAll[OF d Some out[OF Some]])
  moreover have "i \<notin> set (ids (kids eq))" using i by (simp add: ids_single)
  ultimately show ?thesis using q by (simp add: prune_absent)
qed

lemma place_error_frame:
  assumes d: "distinct (ids F)" and x: "getElem er F = Some x"
    and p: "getElem p F = Some ep" and out: "p \<notin> set (ids [x])"
    and q: "getElem q F = Some eq" and qx: "q \<notin> set (ids [x])" and qp: "q \<notin> set (ids [ep])"
    and er: "er \<notin> set (ids [eq])" and pq: "p \<notin> set (ids [eq])"
    and a: "appendChild p er (setTextContent er msg F) = Inr F4"
  shows "getElem q F4 = Some eq"
proof -
  let ?h = "\<lambda>n. if nid n = er then assignText msg n else n"
  let ?F3 = "setTextContent er msg F"
  let ?e' = "Elem (assignText msg (props x)) []"
  let ?ep3 = "updateProps er (assignText msg) (updateKids er (\<lambda>ks. []) ep)"
  have ne: "p \<noteq> er" using out getElem_Some_eid[OF x] by (auto simp: ids_single)
  have qne: "q \<noteq> er" using qx getElem_Some_eid[OF x] by (auto simp: ids_single)
  have m3: "mset (allProps ?F3) = image_mset ?h (mset (allProps F))"
    by (rule setTextContent_props[OF d x])
  have "mset (ids ?F3) = mset (ids F)" by (rule ids_image_props[OF m3]) simp
  then have d3: "distinct (ids ?F3)" using d by (metis mset_eq_imp_distinct_iff)
  have e3: "getElem er ?F3 = Some ?e'" by (rule setTextContent_self[OF d x])
  have p3: "getElem p ?F3 = Some ?ep3" by (rule setTextContent_other[OF d x p out])
  have "getElem q ?F3 = Some (updateProps er (assignText msg) (updateKids er (\<lambda>ks. []) eq))"
    by (rule setTextContent_other[OF d x q qx])
  then have q3: "getElem q ?F3 = Some eq"
    using er by (simp add: updateKids_absent_elem updateProps_absent_elem)
  have nodes: "nodes ?e' = [?e']" by simp
  have F4: "F4 = map (updateKids p (\<lambda>ks. ks @ [?e'])) (pruneAll er ?F3)"
    using a e3 ne getElem_Some_eid[OF x] by (simp add: appendChild_def eid_def split: if_splits)
  let ?G = "pruneAll er ?F3"
  have "mset (ids ?G) + mset (ids [?e']) = mset (ids ?F3)" by (rule pruneAll_mset[OF d3 e3])
  then have dG: "distinct (ids ?G)"
    using d3 by (metis distinct_append mset_append mset_eq_imp_distinct_iff)
  have qG: "getElem q ?G = Some eq"
    by (rule frame_pruneAll[OF d3 q3 er]) (use e3 qne getElem_Some_eid[OF x] in \<open>auto simp: eid_def\<close>)
  have ide: "ids [?e'] = [er]" using getElem_Some_eid[OF x] by (simp add: eid_def)
  have pG: "getElem p ?G = Some (prune er ?ep3)"
    using getElem_pruneAll[OF d3 e3, of p] ide ne p3 by simp
  have k3: "set (ids (kids ?ep3)) \<subseteq> set (ids (kids ep))"
  proof -
    obtain n ks where epe: "ep = Elem n ks" by (cases ep)
    have "set (ids (map (updateProps er (assignText msg)) (map (updateKids er (\<lambda>ks. [])) ks))) \<subseteq> set (ids ks)"
      using ids_emptied_subset[of er ks] by (simp add: ids_updateProps del: map_map)
    then show ?thesis using epe by (auto simp del: map_map)
  qed
  have "set (ids (kids (prune er ?ep3))) \<subseteq> set (ids (kids ?ep3))"
    using ids_pruneAll_subset[of er "kids ?ep3"] by (cases ?ep3) simp
  then have kk: "q \<notin> set (ids (kids (prune er ?ep3)))" using k3 qp by (auto simp: ids_single)
  show ?thesis unfolding F4
    by (rule frame_updateKids[OF dG qG pq]) (use pG kk qne ide in auto)
qed



lemma ids_closed_node:
  assumes "y \<in> set (allNodes (kids e))"
  shows "set (ids [y]) \<subseteq> set (ids (kids e))"
  using assms ids_mem_closed by blast

lemma showError_local:
  assumes wf: "wellFormed pg" and par: "parentElement el (forest pg) = Some p"
    and gp: "getElem p (forest pg) = Some ep0" and s: "showError el msg pg = Inr pg'"
  shows "\<exists>ep'. getElem p (forest pg') = Some ep' \<and>
            set (ids [ep']) \<subseteq> insert (nextId pg) (set (ids [ep0]))"
    and "\<And>q eq. getElem q (forest pg) = Some eq \<Longrightarrow> set (ids [eq]) \<inter> set (ids [ep0]) = {} \<Longrightarrow>
           getElem q (forest pg') = Some eq"
proof -
  let ?add = "classListAdd ''field-error''"
  let ?F1 = "map (updateProps el ?add) (forest pg)"
  let ?pg1 = "pg\<lparr>forest := ?F1\<rparr>"
  have d0: "distinct (ids (forest pg))" using wf by (simp add: wellFormed_def)
  have i1: "ids ?F1 = ids (forest pg)" by (simp add: ids_updateProps)
  have d1: "distinct (ids ?F1)" using d0 i1 by simp
  have p1: "parentElement el ?F1 = Some p" using par by (simp add: parentElement_updateProps)
  let ?ep = "updateProps el ?add ep0"
  have ep: "getElem p ?F1 = Some ?ep" using gp by (simp add: getElem_updateProps)
  have iep: "ids [?ep] = ids [ep0]" using ids_updateProps[of ?add el "[ep0]"] by simp
  have elk: "el \<in> set (ids (kids ep0))"
    using parent_elim[OF d0 par] gp roots_in_ids[of "kids ep0"] by auto
  have pid: "p \<in> set (ids [ep0])" using getElem_Some_eid[OF gp] by (simp add: ids_single)
  have isE: "isError = (\<lambda>y. matchesSel errorMessageSel (props y))"
    by (simp add: fun_eq_iff isError_def)
  \<comment> \<open>an element apart from the container, after the class of the field is set\<close>
  have q1: "getElem q ?F1 = Some eq"
    if "getElem q (forest pg) = Some eq" "set (ids [eq]) \<inter> set (ids [ep0]) = {}" for q eq
    by (rule frame_updateProps) (use that elk in \<open>auto simp: ids_single\<close>)
  have qid: "q \<in> set (ids [eq])" if "getElem q (forest pg) = Some eq" for q eq
    using getElem_Some_eid[OF that] by (simp add: ids_single)
  show "\<exists>ep'. getElem p (forest pg') = Some ep' \<and>
            set (ids [ep']) \<subseteq> insert (nextId pg) (set (ids [ep0]))"
    and "\<And>q eq. getElem q (forest pg) = Some eq \<Longrightarrow> set (ids [eq]) \<inter> set (ids [ep0]) = {} \<Longrightarrow>
           getElem q (forest pg') = Some eq"
  proof (atomize (full), cases "querySelector errorMessageSel p ?F1")
    case (Some er)
    obtain x where x: "x \<in> set (allNodes (kids ?ep))" "eid x = er"
      using querySelector_elim[OF Some] ep by auto
    have "x \<in> set (allNodes ?F1)" using x(1) allNodes_closed[OF getElem_Some_mem[OF ep]] by blast
    then have gx: "getElem er ?F1 = Some x" using getElem_iff[OF d1] x(2) by simp
    have out: "p \<notin> set (ids [x])" by (rule acyclic_node[OF d1 ep x(1)])
    have xin: "set (ids [x]) \<subseteq> set (ids (kids ?ep))" by (rule ids_closed_node[OF x(1)])
    have kin: "set (ids (kids ?ep)) \<subseteq> set (ids [ep0])" using iep by (auto simp: ids_single)
    have erin: "er \<in> set (ids [ep0])" using xin kin x(2) by (auto simp: ids_single)
    obtain F4 where F4: "appendChild p er (setTextContent er msg ?F1) = Inr F4"
        "getElem p F4 =
           Some (Elem (props ?ep) (pruneAll er (kids ?ep) @ [Elem (assignText msg (props x)) []]))"
      using place_error[OF d1 gx ep out, of msg] by blast
    have "showError el msg pg = Inr (?pg1\<lparr>forest := F4\<rparr>)"
      using p1 Some F4(1) by (simp add: showError_def Let_def)
    then have f': "forest pg' = F4" using s by auto
    have "set (ids (pruneAll er (kids ?ep))) \<subseteq> set (ids (kids ?ep))" by (rule ids_pruneAll_subset)
    then have c1: "set (ids [Elem (props ?ep) (pruneAll er (kids ?ep) @ [Elem (assignText msg (props x)) []])])
        \<subseteq> insert (nextId pg) (set (ids [ep0]))"
      using kin erin x(2) getElem_Some_eid[OF ep] pid by (auto simp: eid_def)
    have c2: "getElem q F4 = Some eq"
      if a: "getElem q (forest pg) = Some eq" and b: "set (ids [eq]) \<inter> set (ids [ep0]) = {}" for q eq
    proof (rule place_error_frame[OF d1 gx ep out q1[OF a b] _ _ _ _ F4(1)])
      show "q \<notin> set (ids [x])" using qid[OF a] b xin kin by auto
      show "q \<notin> set (ids [?ep])" using qid[OF a] b iep by auto
      show "er \<notin> set (ids [eq])" using erin b by auto
      show "p \<notin> set (ids [eq])" using pid b by auto
    qed
    show "(\<exists>ep'. getElem p (forest pg') = Some ep' \<and>
            set (ids [ep']) \<subseteq> insert (nextId pg) (set (ids [ep0]))) \<and>
        (\<forall>q eq. getElem q (forest pg) = Some eq \<longrightarrow> set (ids [eq]) \<inter> set (ids [ep0]) = {} \<longrightarrow>
           getElem q (forest pg') = Some eq)"
      using F4(2) c1 c2 unfolding f' by blast
  next
    case None
    let ?new = "nextId pg"
    let ?nn = "\<lparr>nid = ?new, tagName = ''div'', attrs = [], classList = [''error-message''],
        style = [(''color'', ''#dc3545''), (''font-size'', ''12px''), (''margin-top'', ''4px'')],
        elValue = [], defaultValue = [], dirty = False, textContent = []\<rparr>"
    let ?x = "Elem ?nn []"
    let ?F2 = "?F1 @ [?x]"
    let ?pg2 = "?pg1\<lparr>forest := ?F2, nextId := Suc ?new\<rparr>"
    have fresh: "?new \<notin> set (ids ?F1)" using wellFormed_bound[OF wf, of ?new] i1 by auto
    have c: "createErrorElement ?pg1 = (?new, ?pg2)"
      using fresh by (simp add: createErrorElement_def createElement_def updateProps_absent del: map_map)
    have d2: "distinct (ids ?F2)" using d1 fresh by simp
    have gx: "getElem ?new ?F2 = Some ?x"
      using fresh by (simp add: getElem_append getElem_None_iff[THEN iffD2])
    have gp2: "getElem p ?F2 = Some ?ep" using ep by (simp add: getElem_append)
    have "p \<in> set (ids ?F1)" using ep getElem_None_iff[of p ?F1] by auto
    then have out: "p \<notin> set (ids [?x])" using fresh by auto
    obtain F4 where F4: "appendChild p ?new (setTextContent ?new msg ?F2) = Inr F4"
        "getElem p F4 =
           Some (Elem (props ?ep) (pruneAll ?new (kids ?ep) @ [Elem (assignText msg (props ?x)) []]))"
      using place_error[OF d2 gx gp2 out, of msg] by blast
    have "showError el msg pg = Inr (?pg2\<lparr>forest := F4\<rparr>)"
      using p1 None F4(1) c by (simp add: showError_def Let_def)
    then have f': "forest pg' = F4" using s by auto
    have kin: "set (ids (kids ?ep)) \<subseteq> set (ids [ep0])" using iep by (auto simp: ids_single)
    have "set (ids (pruneAll ?new (kids ?ep))) \<subseteq> set (ids (kids ?ep))" by (rule ids_pruneAll_subset)
    then have c1: "set (ids [Elem (props ?ep) (pruneAll ?new (kids ?ep) @ [Elem (assignText msg (props ?x)) []])])
        \<subseteq> insert (nextId pg) (set (ids [ep0]))"
      using kin getElem_Some_eid[OF ep] pid by (auto simp: eid_def)
    have c2: "getElem q F4 = Some eq"
      if a: "getElem q (forest pg) = Some eq" and b: "set (ids [eq]) \<inter> set (ids [ep0]) = {}" for q eq
    proof -
      have q2: "getElem q ?F2 = Some eq" using q1[OF a b] by (simp add: getElem_append)
      have sub: "set (ids [eq]) \<subseteq> set (ids (forest pg))"
        using ids_mem_closed[OF getElem_Some_mem[OF a]] .
      show ?thesis
      proof (rule place_error_frame[OF d2 gx gp2 out q2 _ _ _ _ F4(1)])
        show "q \<notin> set (ids [?x])" using qid[OF a] sub fresh i1 by auto
        show "q \<notin> set (ids [?ep])" using qid[OF a] b iep by auto
        show "?new \<notin> set (ids [eq])" using sub fresh i1 by auto
        show "p \<notin> set (ids [eq])" using pid b by auto
      qed
    qed
    show "(\<exists>ep'. getElem p (forest pg') = Some ep' \<and>
            set (ids [ep']) \<subseteq> insert (nextId pg) (set (ids [ep0]))) \<and>
        (\<forall>q eq. getElem q (forest pg) = Some eq \<longrightarrow> set (ids [eq]) \<inter> set (ids [ep0]) = {} \<longrightarrow>
           getElem q (forest pg') = Some eq)"
      using F4(2) c1 c2 unfolding f' by blast
  qed
qed



lemma clearError_local:
  assumes wf: "wellFormed pg" and par: "parentElement el (forest pg) = Some p"
    and gp: "getElem p (forest pg) = Some ep0" and s: "clearError el pg = Inr pg'"
  shows "\<exists>ep'. getElem p (forest pg') = Some ep' \<and> set (ids [ep']) \<subseteq> set (ids [ep0])"
    and "\<And>q eq. getElem q (forest pg) = Some eq \<Longrightarrow> set (ids [eq]) \<inter> set (ids [ep0]) = {} \<Longrightarrow>
           getElem q (forest pg') = Some eq"
proof -
  let ?rm = "classListRemove ''field-error''"
  let ?F1 = "map (updateProps el ?rm) (forest pg)"
  let ?pg1 = "pg\<lparr>forest := ?F1\<rparr>"
  have d0: "distinct (ids (forest pg))" using wf by (simp add: wellFormed_def)
  have i1: "ids ?F1 = ids (forest pg)" by (simp add: ids_updateProps)
  have d1: "distinct (ids ?F1)" using d0 i1 by simp
  have p1: "parentElement el ?F1 = Some p" using par by (simp add: parentElement_updateProps)
  let ?ep = "updateProps el ?rm ep0"
  have ep: "getElem p ?F1 = Some ?ep" using gp by (simp add: getElem_updateProps)
  have iep: "ids [?ep] = ids [ep0]" using ids_updateProps[of ?rm el "[ep0]"] by simp
  have elk: "el \<in> set (ids (kids ep0))"
    using parent_elim[OF d0 par] gp roots_in_ids[of "kids ep0"] by auto
  have q1: "getElem q ?F1 = Some eq"
    if "getElem q (forest pg) = Some eq" "set (ids [eq]) \<inter> set (ids [ep0]) = {}" for q eq
    by (rule frame_updateProps) (use that elk in \<open>auto simp: ids_single\<close>)
  have qid: "q \<in> set (ids [eq])" if "getElem q (forest pg) = Some eq" for q eq
    using getElem_Some_eid[OF that] by (simp add: ids_single)
  show "\<exists>ep'. getElem p (forest pg') = Some ep' \<and> set (ids [ep']) \<subseteq> set (ids [ep0])"
    and "\<And>q eq. getElem q (forest pg) = Some eq \<Longrightarrow> set (ids [eq]) \<inter> set (ids [ep0]) = {} \<Longrightarrow>
           getElem q (forest pg') = Some eq"
  proof (atomize (full), cases "querySelector errorMessageSel p ?F1")
    case None
    have "clearError el pg = Inr ?pg1" using p1 None by (simp add: clearError_def Let_def)
    then have f': "forest pg' = ?F1" using s by auto
    show "(\<exists>ep'. getElem p (forest pg') = Some ep' \<and> set (ids [ep']) \<subseteq> set (ids [ep0])) \<and>
        (\<forall>q eq. getElem q (forest pg) = Some eq \<longrightarrow> set (ids [eq]) \<inter> set (ids [ep0]) = {} \<longrightarrow>
           getElem q (forest pg') = Some eq)"
      using ep iep q1 unfolding f' by auto
  next
    case (Some er)
    obtain x where x: "x \<in> set (allNodes (kids ?ep))" "eid x = er"
      using querySelector_elim[OF Some] ep by auto
    have em: "?ep \<in> set (allNodes ?F1)" by (rule getElem_Some_mem[OF ep])
    have "x \<in> set (allNodes ?F1)" using x(1) allNodes_closed[OF em] by blast
    then have gx: "getElem er ?F1 = Some x" using getElem_iff[OF d1] x(2) by simp
    have out: "p \<notin> set (ids [x])" by (rule acyclic_node[OF d1 ep x(1)])
    have nr: "er \<notin> set (map eid ?F1)" using strict_descendant_not_root[OF d1 em x(1)] x(2) by simp
    have xin: "set (ids [x]) \<subseteq> set (ids (kids ?ep))" by (rule ids_closed_node[OF x(1)])
    have kin: "set (ids (kids ?ep)) \<subseteq> set (ids [ep0])" using iep by (auto simp: ids_single)
    have "clearError el pg = Inr (?pg1\<lparr>forest := remove er ?F1\<rparr>)"
      using p1 Some by (simp add: clearError_def Let_def)
    then have f': "forest pg' = remove er ?F1" using s by auto
    have gp': "getElem p (remove er ?F1) = Some (prune er ?ep)"
      by (rule remove_spec(3)[OF d1 gx nr out ep])
    have "set (ids (kids (prune er ?ep))) \<subseteq> set (ids (kids ?ep))"
      using ids_pruneAll_subset[of er "kids ?ep"] by (cases ?ep) simp
    moreover have "eid (prune er ?ep) = eid ?ep" by (cases ?ep) simp
    ultimately have c1: "set (ids [prune er ?ep]) \<subseteq> set (ids [ep0])"
      using iep by (auto simp: ids_single)
    have c2: "getElem q (remove er ?F1) = Some eq"
      if a: "getElem q (forest pg) = Some eq" and b: "set (ids [eq]) \<inter> set (ids [ep0]) = {}" for q eq
    proof -
      have "q \<notin> set (ids [x])" using qid[OF a] b xin kin by auto
      then have "getElem q (remove er ?F1) = Some (prune er eq)"
        by (rule remove_spec(3)[OF d1 gx nr _ q1[OF a b]])
      moreover have "er \<notin> set (ids (kids eq))" using xin kin x(2) b by (auto simp: ids_single)
      ultimately show ?thesis by (simp add: prune_absent)
    qed
    show "(\<exists>ep'. getElem p (forest pg') = Some ep' \<and> set (ids [ep']) \<subseteq> set (ids [ep0])) \<and>
        (\<forall>q eq. getElem q (forest pg) = Some eq \<longrightarrow> set (ids [eq]) \<inter> set (ids [ep0]) = {} \<longrightarrow>
           getElem q (forest pg') = Some eq)"
      using gp' c1 c2 unfolding f' by blast
  qed
qed



section \<open>Submitting the form\<close>

lemma findRulesIn_found:
  "querySelector (selector fd) f F = Some el \<Longrightarrow> fd \<in> set (map snd tbl) \<Longrightarrow>
   \<exists>fd'. findRulesIn (Some f) el F tbl = Inr (Some fd')"
proof (induction tbl)
  case Nil
  then show ?case by simp
next
  case (Cons a tbl)
  obtain name fd0 where a: "a = (name, fd0)" by (cases a)
  show ?case
  proof (cases "querySelector (selector fd0) f F = Some el")
    case True
    then show ?thesis using a by simp
  next
    case False
    then have "fd \<noteq> fd0" using Cons.prems(1) by auto
    then have "fd \<in> set (map snd tbl)" using Cons.prems(2) a by auto
    then show ?thesis using Cons.IH[OF Cons.prems(1)] False a by simp
  qed
qed

lemma hasClass_absent: "j \<notin> set (ids (forest pg)) \<Longrightarrow> \<not> hasClass c j pg"
  by (simp add: hasClass_propsOf propsOf_None_iff[THEN iffD2])

lemma has_parent_mem: "parentElement e F = Some p \<Longrightarrow> e \<in> set (ids F)"
  using parentElement_absent[of e F] by auto

text \<open>The container of an element, and the containers apart from it.\<close>

lemma containerIds_eq:
  "parentElement e (forest pg) = Some p \<Longrightarrow> getElem p (forest pg) = Some ep \<Longrightarrow>
   containerIds e pg = ids [ep]"
  by (simp add: containerIds_def)

lemma container_frame:
  assumes d: "distinct (ids (forest pg))" and d': "distinct (ids (forest pg'))"
    and par: "parentElement e (forest pg) = Some p" and g': "\<And>ep. getElem p (forest pg) = Some ep \<Longrightarrow> getElem p (forest pg') = Some ep"
  shows "containerIds e pg' = containerIds e pg" "errorNodes e pg' = errorNodes e pg"
    "parentElement e (forest pg') = Some p"
proof -
  obtain ep where ep: "getElem p (forest pg) = Some ep" "e \<in> set (map eid (kids ep))"
    using parent_elim[OF d par] by blast
  show p': "parentElement e (forest pg') = Some p" by (rule parent_intro[OF d' g'[OF ep(1)] ep(2)])
  show "containerIds e pg' = containerIds e pg"
    using containerIds_eq[OF par ep(1)] containerIds_eq[OF p' g'[OF ep(1)]] by simp
  show "errorNodes e pg' = errorNodes e pg"
    using errorNodes_eq[OF par ep(1)] errorNodes_eq[OF p' g'[OF ep(1)]] by simp
qed

lemma validateField_effect:
  assumes wf: "wellFormed pg" and f: "form this = Some f" and t: "fields' this = Some tbl"
    and fd: "fd \<in> set (map snd tbl)" and q: "querySelector (selector fd) f (forest pg) = Some el"
  obtains ok ev pg' fd' p ep0 where
    "validateField this el pg = Inr (ok, ev, pg')"
    "findRules this el pg = Inr (Some fd')"
    "parentElement el (forest pg) = Some p" "getElem p (forest pg) = Some ep0"
    "wellFormed pg'"
    "hasClass ''field-error'' el pg' \<longleftrightarrow> \<not> ok"
    "\<And>j c. j \<in> set (ids (forest pg)) \<Longrightarrow> j \<noteq> el \<or> c \<noteq> ''field-error'' \<Longrightarrow>
        hasClass c j pg' = hasClass c j pg"
    "\<And>j. j \<noteq> el \<Longrightarrow> hasClass ''field-error'' j pg' = hasClass ''field-error'' j pg"
    "\<And>j. hasClass ''form-success-message'' j pg' = hasClass ''form-success-message'' j pg"
    "\<And>j. \<not> hasClass ''error-message'' j pg \<Longrightarrow> elementValue j pg' = elementValue j pg"
    "set (ids (forest pg)) \<subseteq> set (ids (forest pg'))"
    "ownContainer el pg \<Longrightarrow>
       ownContainer el pg' \<and> parentElement el (forest pg') = Some p \<and>
       (if ok then errorNodes el pg' = [] else errorMessages el pg' = [message fd'])"
    "\<exists>ep'. getElem p (forest pg') = Some ep' \<and>
        set (ids [ep']) \<subseteq> insert (nextId pg) (set (ids [ep0]))"
    "\<And>q eq. getElem q (forest pg) = Some eq \<Longrightarrow> set (ids [eq]) \<inter> set (ids [ep0]) = {} \<Longrightarrow>
        getElem q (forest pg') = Some eq"
    "document pg' = document pg" "listeners pg' = listeners pg" "timers pg' = timers pg"
    "now pg' = now pg" "nextId pg \<le> nextId pg'"
proof -
  obtain fd' where fr: "findRules this el pg = Inr (Some fd')"
    using findRulesIn_found[OF q fd] f t by (auto simp: findRules_def)
  obtain p where par: "parentElement el (forest pg) = Some p"
    using querySelector_has_parent[OF q] by auto
  have d: "distinct (ids (forest pg))" using wf by (simp add: wellFormed_def)
  obtain ep0 where gp: "getElem p (forest pg) = Some ep0" using parent_elim[OF d par] by blast
  have elin: "el \<in> set (ids (forest pg))" by (rule has_parent_mem[OF par])
  let ?v = "elementValue el pg"
  show ?thesis
  proof (cases "list_all (checkRule ?v) (rules fd')")
    case True
    show ?thesis
    proof (rule clearError_effect[OF wf par])
    fix pg'
    assume c: "clearError el pg = Inr pg'" "wellFormed pg'"
        "\<not> hasClass ''field-error'' el pg'"
        "\<And>j c. j \<noteq> el \<or> c \<noteq> ''field-error'' \<Longrightarrow> hasClass c j pg' = hasClass c j pg"
        "\<And>j. elementValue j pg' = elementValue j pg"
        "set (ids (forest pg')) = set (ids (forest pg))"
        "length (errorNodes el pg) \<le> 1 \<Longrightarrow> errorNodes el pg' = []"
        "length (errorNodes el pg) \<le> 1 \<Longrightarrow> \<not> hasClass ''error-message'' el pg \<Longrightarrow>
           parentElement el (forest pg') = Some p \<and> clearError el pg' = Inr pg'"
        "document pg' = document pg" "listeners pg' = listeners pg" "timers pg' = timers pg"
        "now pg' = now pg" "nextId pg' = nextId pg"
    have v: "validateField this el pg = Inr (True, rules fd', pg')"
      using fr True c(1) by (simp add: validateField_def checkRules_eq)
    have own: "ownContainer el pg' \<and> parentElement el (forest pg') = Some p \<and>
        (if True then errorNodes el pg' = [] else errorMessages el pg' = [message fd'])"
      if "ownContainer el pg"
      using that c(7,8) c(4)[of el "''error-message''"] by (simp add: ownContainer_def)
    have l1: "\<exists>ep'. getElem p (forest pg') = Some ep' \<and>
        set (ids [ep']) \<subseteq> insert (nextId pg) (set (ids [ep0]))"
      using clearError_local(1)[OF wf par gp c(1)] by blast
    show ?thesis
      apply (rule that[of True "rules fd'" pg' fd' p ep0])
                        apply (rule v)
                        apply (rule fr)
                        apply (rule par)
                       apply (rule gp)
                      apply (rule c(2))
                     apply (simp add: c(3))
                    apply (simp add: c(4))
                   apply (simp add: c(4))
                  apply (simp add: c(4))
                 apply (rule c(5))
                apply (simp add: c(6))
               apply (erule own)
              apply (rule l1)
             apply (erule (1) clearError_local(2)[OF wf par gp c(1)])
            apply (rule c(9))
           apply (rule c(10))
          apply (rule c(11))
         apply (rule c(12))
        apply (simp add: c(13))
      done
    qed
  next
    case False
    show ?thesis
    proof (rule showError_effect[OF wf par, of "message fd'"])
    fix pg'
    assume s: "showError el (message fd') pg = Inr pg'" "wellFormed pg'"
        "parentElement el (forest pg') = Some p"
        "hasClass ''field-error'' el pg'"
        "\<And>j c. j \<noteq> el \<or> c \<noteq> ''field-error'' \<Longrightarrow> hasClass c j pg' = hasClass c j pg \<or>
            (j \<notin> set (ids (forest pg)) \<and> (hasClass c j pg' \<longrightarrow> c = ''error-message''))"
        "\<And>j. \<not> hasClass ''error-message'' j pg \<Longrightarrow> elementValue j pg' = elementValue j pg"
        "set (ids (forest pg)) \<subseteq> set (ids (forest pg'))"
        "length (errorNodes el pg) \<le> 1 \<Longrightarrow> errorMessages el pg' = [message fd']"
        "document pg' = document pg" "listeners pg' = listeners pg" "timers pg' = timers pg"
        "now pg' = now pg" "nextId pg \<le> nextId pg'"
    let ?ev = "takeWhile (checkRule ?v) (rules fd') @ [hd (dropWhile (checkRule ?v) (rules fd'))]"
    have v: "validateField this el pg = Inr (False, ?ev, pg')"
      using fr False s(1) by (simp add: validateField_def checkRules_eq)
    have o0: "hasClass c j pg' = hasClass c j pg"
      if "j \<in> set (ids (forest pg))" "j \<noteq> el \<or> c \<noteq> ''field-error''" for j c
      using s(5)[of j c] that by auto
    have o1: "hasClass ''field-error'' j pg' = hasClass ''field-error'' j pg" if "j \<noteq> el" for j
      using s(5)[of j "''field-error''"] that hasClass_absent[of j pg] by auto
    have o2: "hasClass ''form-success-message'' j pg' = hasClass ''form-success-message'' j pg" for j
      using s(5)[of j "''form-success-message''"] hasClass_absent[of j pg] by auto
    have own: "ownContainer el pg' \<and> parentElement el (forest pg') = Some p \<and>
        (if False then errorNodes el pg' = [] else errorMessages el pg' = [message fd'])"
      if o: "ownContainer el pg"
    proof -
      have m: "errorMessages el pg' = [message fd']" using s(8) o by (simp add: ownContainer_def)
      then have "length (errorNodes el pg') = 1"
        by (metis errorMessages_def length_map length_Cons list.size(3) One_nat_def)
      moreover have "\<not> hasClass ''error-message'' el pg'"
        using o0[OF elin, of "''error-message''"] o by (simp add: ownContainer_def)
      ultimately show ?thesis using s(3) m by (simp add: ownContainer_def)
    qed
    show ?thesis
      apply (rule that[of False ?ev pg' fd' p ep0])
                        apply (rule v)
                        apply (rule fr)
                        apply (rule par)
                       apply (rule gp)
                      apply (rule s(2))
                     apply (simp add: s(4))
                    apply (erule (1) o0)
                   apply (erule o1)
                  apply (rule o2)
                 apply (erule s(6))
                apply (rule s(7))
               apply (erule own)
              apply (rule showError_local(1)[OF wf par gp s(1)])
             apply (erule (1) showError_local(2)[OF wf par gp s(1)])
            apply (rule s(9))
           apply (rule s(10))
          apply (rule s(11))
         apply (rule s(12))
        apply (rule s(13))
      done
    qed
  qed
qed



lemma verdict_snoc_same: "target v = Some el \<Longrightarrow> verdict (log @ [v]) el = valid v"
  by (simp add: verdict_def)

lemma verdict_snoc_other: "target v \<noteq> Some el \<Longrightarrow> verdict (log @ [v]) el = verdict log el"
  by (simp add: verdict_def)

lemma marksAgree_iff:
  "marksAgree log pg \<longleftrightarrow>
     (\<forall>v el. v \<in> set log \<longrightarrow> target v = Some el \<longrightarrow>
        hasClass ''field-error'' el pg = (\<not> verdict log el))"
  by (auto simp: marksAgree_def list_all_iff split: option.splits)

lemma submitForm_eq:
  assumes wf: "wellFormed pg" and f: "form this = Some f" and mem: "f \<in> set (ids (forest pg))"
  shows "submitForm this pg =
     Inr (pg\<lparr>forest := map (updateKids f (\<lambda>ks. successBanner (nextId pg) # ks)) (forest pg),
             nextId := Suc (nextId pg),
             timers := timers pg @ [(now pg + 2000, ResetThenFade f (nextId pg))]\<rparr>)"
proof -
  let ?b = "nextId pg" and ?F = "forest pg"
  have fresh: "?b \<notin> set (ids ?F)" using wellFormed_bound[OF wf, of ?b] by auto
  have ne: "f \<noteq> ?b" using mem fresh by auto
  have g: "getElem ?b ?F = None" using fresh by (simp add: getElem_None_iff)
  have u: "\<And>h. map (updateProps ?b h) ?F = ?F" using fresh by (simp add: updateProps_absent)
  have k: "\<And>h. map (updateKids ?b h) ?F = ?F" using fresh by (simp add: updateKids_absent)
  have p: "pruneAll ?b ?F = ?F" using fresh by (simp add: pruneAll_absent)
  have pa: "\<And>e. eid e = ?b \<Longrightarrow> pruneAll ?b (?F @ [e]) = ?F"
    using p by (simp add: pruneAll_def)
  show ?thesis
    using f ne
    by (simp add: submitForm_def createElement_def Let_def setTextContent_def insertFirst_def
        getElem_append g u k pa successBanner_def setTimeout_def assignText_def del: map_map)
qed

lemma marksAgree_skip:
  "marksAgree log pg \<Longrightarrow> target v = None \<Longrightarrow> marksAgree (log @ [v]) pg"
  by (auto simp: marksAgree_iff verdict_snoc_other)

lemma marksAgree_visit:
  assumes "marksAgree log pg" "target v = Some el"
    "hasClass ''field-error'' el pg' \<longleftrightarrow> \<not> valid v"
    "\<And>j. j \<noteq> el \<Longrightarrow> hasClass ''field-error'' j pg' = hasClass ''field-error'' j pg"
  shows "marksAgree (log @ [v]) pg'"
  unfolding marksAgree_iff
proof (intro allI impI)
  fix w j assume w: "w \<in> set (log @ [v])" "target w = Some j"
  show "hasClass ''field-error'' j pg' = (\<not> verdict (log @ [v]) j)"
  proof (cases "j = el")
    case True
    then show ?thesis using assms(2,3) by (simp add: verdict_snoc_same)
  next
    case False
    then have "w \<in> set log" using w assms(2) by auto
    then have "hasClass ''field-error'' j pg = (\<not> verdict log j)"
      using assms(1) w(2) by (auto simp: marksAgree_iff)
    then show ?thesis using False assms(2,4) by (simp add: verdict_snoc_other)
  qed
qed

lemma validateAll_spec:
  assumes f: "form this = Some f" and t: "fields' this = Some tbl"
  shows "set fds \<subseteq> set (map snd tbl) \<Longrightarrow> wellFormed pg \<Longrightarrow> marksAgree log pg \<Longrightarrow>
     \<exists>log' pgv.
        validateAll this fds isValid log pg = Inr (isValid \<and> list_all valid log', log @ log', pgv) \<and>
        map descriptor log' = fds \<and> validatesEach this f log' pg pgv \<and>
        wellFormed pgv \<and> marksAgree (log @ log') pgv \<and>
        (\<forall>j. (\<forall>v\<in>set log'. target v \<noteq> Some j) \<longrightarrow>
             hasClass ''field-error'' j pgv = hasClass ''field-error'' j pg) \<and>
        (\<forall>j. hasClass ''form-success-message'' j pgv = hasClass ''form-success-message'' j pg) \<and>
        (\<forall>j\<in>set (ids (forest pg)). hasClass ''error-message'' j pgv = hasClass ''error-message'' j pg) \<and>
        (\<forall>j\<in>set (ids (forest pg)). \<not> hasClass ''error-message'' j pg \<longrightarrow>
             elementValue j pgv = elementValue j pg) \<and>
        set (ids (forest pg)) \<subseteq> set (ids (forest pgv)) \<and>
        document pgv = document pg \<and> listeners pgv = listeners pg \<and> timers pgv = timers pg \<and>
        now pgv = now pg"
proof (induction fds arbitrary: isValid log pg)
  case Nil
  show ?case
    by (rule exI[of _ "[]"], rule exI[of _ pg]) (use Nil in simp)
next
  case (Cons fd rest)
  have sub: "set rest \<subseteq> set (map snd tbl)" and fd: "fd \<in> set (map snd tbl)"
    using Cons.prems(1) by auto
  show ?case
  proof (cases "querySelector (selector fd) f (forest pg)")
    case None
    let ?v = "\<lparr>descriptor = fd, target = None, valid = True, evaluated = []\<rparr>"
    have m: "marksAgree (log @ [?v]) pg" by (rule marksAgree_skip[OF Cons.prems(3)]) simp
    obtain log' pgv where r:
        "validateAll this rest isValid (log @ [?v]) pg =
           Inr (isValid \<and> list_all valid log', (log @ [?v]) @ log', pgv)"
        "map descriptor log' = rest" "validatesEach this f log' pg pgv"
        "wellFormed pgv" "marksAgree ((log @ [?v]) @ log') pgv"
        "\<forall>j. (\<forall>v\<in>set log'. target v \<noteq> Some j) \<longrightarrow>
             hasClass ''field-error'' j pgv = hasClass ''field-error'' j pg"
        "\<forall>j. hasClass ''form-success-message'' j pgv = hasClass ''form-success-message'' j pg"
        "\<forall>j\<in>set (ids (forest pg)). hasClass ''error-message'' j pgv = hasClass ''error-message'' j pg"
        "\<forall>j\<in>set (ids (forest pg)). \<not> hasClass ''error-message'' j pg \<longrightarrow>
             elementValue j pgv = elementValue j pg"
        "set (ids (forest pg)) \<subseteq> set (ids (forest pgv))"
        "document pgv = document pg" "listeners pgv = listeners pg" "timers pgv = timers pg"
        "now pgv = now pg"
      using Cons.IH[OF sub Cons.prems(2) m, of isValid] by blast
    have v: "validateAll this (fd # rest) isValid log pg =
        Inr (isValid \<and> list_all valid (?v # log'), log @ (?v # log'), pgv)"
      using f None r(1) by simp
    have ch: "validatesEach this f (?v # log') pg pgv" using None r(3) by simp
    show ?thesis
      apply (rule exI[of _ "?v # log'"], rule exI[of _ pgv])
      apply (intro conjI)
                   apply (rule v)
                   apply (simp add: r(2))
                   apply (rule ch)
                  apply (rule r(4))
                 apply (use r(5) in simp)
                apply (use r(6) in simp)
               apply (rule r(7))
              apply (rule r(8))
             apply (rule r(9))
            apply (rule r(10))
           apply (rule r(11))
          apply (rule r(12))
         apply (rule r(13))
        apply (rule r(14))
      done
  next
    case (Some el)
    show ?thesis
    proof (rule validateField_effect[OF Cons.prems(2) f t fd Some])
      fix ok ev pg1
      assume e: "validateField this el pg = Inr (ok, ev, pg1)" "wellFormed pg1"
        "hasClass ''field-error'' el pg1 \<longleftrightarrow> \<not> ok"
        "\<And>j c. j \<in> set (ids (forest pg)) \<Longrightarrow> j \<noteq> el \<or> c \<noteq> ''field-error'' \<Longrightarrow>
            hasClass c j pg1 = hasClass c j pg"
        "\<And>j. j \<noteq> el \<Longrightarrow> hasClass ''field-error'' j pg1 = hasClass ''field-error'' j pg"
        "\<And>j. hasClass ''form-success-message'' j pg1 = hasClass ''form-success-message'' j pg"
        "\<And>j. \<not> hasClass ''error-message'' j pg \<Longrightarrow> elementValue j pg1 = elementValue j pg"
        "set (ids (forest pg)) \<subseteq> set (ids (forest pg1))"
        "document pg1 = document pg" "listeners pg1 = listeners pg" "timers pg1 = timers pg"
        "now pg1 = now pg"
      let ?v = "\<lparr>descriptor = fd, target = Some el, valid = ok, evaluated = ev\<rparr>"
      let ?iv = "if \<not> ok then False else isValid"
      have m: "marksAgree (log @ [?v]) pg1"
        by (rule marksAgree_visit[OF Cons.prems(3), of ?v el]) (use e(3,5) in simp_all)
      obtain log' pgv where r:
          "validateAll this rest ?iv (log @ [?v]) pg1 =
             Inr (?iv \<and> list_all valid log', (log @ [?v]) @ log', pgv)"
          "map descriptor log' = rest" "validatesEach this f log' pg1 pgv"
          "wellFormed pgv" "marksAgree ((log @ [?v]) @ log') pgv"
          "\<forall>j. (\<forall>v\<in>set log'. target v \<noteq> Some j) \<longrightarrow>
               hasClass ''field-error'' j pgv = hasClass ''field-error'' j pg1"
          "\<forall>j. hasClass ''form-success-message'' j pgv = hasClass ''form-success-message'' j pg1"
          "\<forall>j\<in>set (ids (forest pg1)). hasClass ''error-message'' j pgv = hasClass ''error-message'' j pg1"
          "\<forall>j\<in>set (ids (forest pg1)). \<not> hasClass ''error-message'' j pg1 \<longrightarrow>
               elementValue j pgv = elementValue j pg1"
          "set (ids (forest pg1)) \<subseteq> set (ids (forest pgv))"
          "document pgv = document pg1" "listeners pgv = listeners pg1" "timers pgv = timers pg1"
          "now pgv = now pg1"
        using Cons.IH[OF sub e(2) m, of ?iv] by blast
      have iv: "(?iv \<and> list_all valid log') = (isValid \<and> list_all valid (?v # log'))" by auto
      have v: "validateAll this (fd # rest) isValid log pg =
          Inr (isValid \<and> list_all valid (?v # log'), log @ (?v # log'), pgv)"
        using f Some e(1) r(1) unfolding iv by simp
      have ch: "validatesEach this f (?v # log') pg pgv" using Some e(1) r(3) by simp
      have un: "\<forall>j. (\<forall>v\<in>set (?v # log'). target v \<noteq> Some j) \<longrightarrow>
             hasClass ''field-error'' j pgv = hasClass ''field-error'' j pg"
        using r(6) e(5) by auto
      have em: "\<forall>j\<in>set (ids (forest pg)). hasClass ''error-message'' j pgv = hasClass ''error-message'' j pg"
        using r(8) e(4)[of _ "''error-message''"] e(8) by auto
      have va: "\<forall>j\<in>set (ids (forest pg)). \<not> hasClass ''error-message'' j pg \<longrightarrow>
             elementValue j pgv = elementValue j pg"
      proof (intro ballI impI)
        fix j assume j: "j \<in> set (ids (forest pg))" "\<not> hasClass ''error-message'' j pg"
        have "\<not> hasClass ''error-message'' j pg1" using e(4)[OF j(1), of "''error-message''"] j(2) by simp
        moreover have "j \<in> set (ids (forest pg1))" using j(1) e(8) by blast
        ultimately have "elementValue j pgv = elementValue j pg1" using r(9) by blast
        then show "elementValue j pgv = elementValue j pg" using e(7)[OF j(2)] by simp
      qed
      show ?thesis
        apply (rule exI[of _ "?v # log'"], rule exI[of _ pgv])
        apply (intro conjI)
                     apply (rule v)
                    apply (simp add: r(2))
                   apply (rule ch)
                  apply (rule r(4))
                 apply (use r(5) in simp)
                apply (rule un)
               apply (simp add: r(7) e(6))
              apply (rule em)
             apply (rule va)
            apply (use r(10) e(8) in blast)
           apply (simp add: r(11) e(9))
          apply (simp add: r(12) e(10))
         apply (simp add: r(13) e(11))
        apply (simp add: r(14) e(12))
        done
    qed
  qed
qed



section \<open>Fields in containers of their own\<close>

lemma containerIds_sub: "set (containerIds e pg) \<subseteq> set (ids (forest pg))"
proof (cases "parentElement e (forest pg)")
  case None
  then show ?thesis by (simp add: containerIds_def)
next
  case (Some p)
  show ?thesis
  proof (cases "getElem p (forest pg)")
    case None
    then show ?thesis using Some by (simp add: containerIds_def)
  next
    case (Some ep)
    then show ?thesis
      using \<open>parentElement e (forest pg) = Some p\<close> ids_mem_closed[OF getElem_Some_mem[OF Some]]
      by (simp add: containerIds_def)
  qed
qed

lemma containerIds_distinct: "distinct (ids (forest pg)) \<Longrightarrow> distinct (containerIds e pg)"
proof (cases "parentElement e (forest pg)")
  case None
  then show ?thesis by (simp add: containerIds_def)
next
  case (Some p)
  assume d: "distinct (ids (forest pg))"
  show ?thesis
  proof (cases "getElem p (forest pg)")
    case None
    then show ?thesis using Some by (simp add: containerIds_def)
  next
    case (Some ep)
    then show ?thesis
      using \<open>parentElement e (forest pg) = Some p\<close> distinct_node[OF d getElem_Some_mem[OF Some]]
      by (simp add: containerIds_def)
  qed
qed

lemma containerIds_self:
  assumes "distinct (ids (forest pg))" "parentElement e (forest pg) = Some p"
  shows "e \<in> set (containerIds e pg)"
proof -
  obtain ep where ep: "getElem p (forest pg) = Some ep" "e \<in> set (map eid (kids ep))"
    using parent_elim[OF assms] by blast
  then have "e \<in> set (ids [ep])" using roots_in_ids[of "kids ep"] by (auto simp: ids_single)
  then show ?thesis using containerIds_eq[OF assms(2) ep(1)] by simp
qed

lemma separated_apart:
  assumes "separated (A @ el # B) pg" "e \<in> set A \<union> set B"
  shows "set (containerIds e pg) \<inter> set (containerIds el pg) = {}" "ownContainer e pg"
  using assms by (auto simp: separated_def list_all_iff)

lemma separated_own: "separated (A @ el # B) pg \<Longrightarrow> ownContainer el pg"
  by (simp add: separated_def)

lemma distinct_replace:
  assumes "distinct (X @ c @ Y)" "distinct c1" "set c1 \<subseteq> insert n (set c)" "n \<notin> set X \<union> set Y"
  shows "distinct (X @ c1 @ Y)"
proof -
  have "set c \<inter> set X = {}" "set c \<inter> set Y = {}" "set X \<inter> set Y = {}" "distinct X" "distinct Y"
    using assms(1) by auto
  moreover have "set c1 \<inter> set X = {}" "set c1 \<inter> set Y = {}"
    using assms(3,4) calculation(1,2) by blast+
  ultimately show ?thesis using assms(2) by auto
qed

lemma separated_step:
  assumes sep: "separated (A @ el # B) pg" and wf: "wellFormed pg" and wf1: "wellFormed pg1"
    and own1: "ownContainer el pg1"
    and sub: "set (containerIds el pg1) \<subseteq> insert (nextId pg) (set (containerIds el pg))"
    and fr: "\<And>e. e \<in> set A \<union> set B \<Longrightarrow> containerIds e pg1 = containerIds e pg \<and> ownContainer e pg1"
  shows "separated (A @ el # B) pg1"
proof -
  let ?c = "\<lambda>e. containerIds e pg" and ?c1 = "\<lambda>e. containerIds e pg1"
  let ?X = "concat (map ?c A)" and ?Y = "concat (map ?c B)"
  have mA: "map ?c1 A = map ?c A" and mB: "map ?c1 B = map ?c B" using fr by auto
  have dc: "distinct (?X @ ?c el @ ?Y)" using sep by (simp add: separated_def)
  have new: "nextId pg \<notin> set ?X \<union> set ?Y"
    using containerIds_sub[of _ pg] wellFormed_bound[OF wf, of "nextId pg"] by auto
  have d1: "distinct (?c1 el)"
    by (rule containerIds_distinct) (use wf1 in \<open>simp add: wellFormed_def\<close>)
  have "distinct (?X @ ?c1 el @ ?Y)" by (rule distinct_replace[OF dc d1 sub new])
  moreover have cc: "concat (map ?c1 A) = ?X" "concat (map ?c1 B) = ?Y" by (simp_all only: mA mB)
  have "concat (map ?c1 (A @ el # B)) = ?X @ ?c1 el @ ?Y" by (simp add: cc)
  ultimately have "distinct (concat (map ?c1 (A @ el # B)))" by (simp only:)
  moreover have "list_all (\<lambda>e. ownContainer e pg1) (A @ el # B)"
    using fr own1 by (auto simp: list_all_iff)
  ultimately show ?thesis by (simp add: separated_def)
qed

lemma validatesEach_markers:
  assumes f: "form this = Some f" and t: "fields' this = Some tbl"
  shows "validatesEach this f log pg pgv \<Longrightarrow> wellFormed pg \<Longrightarrow>
     set (map descriptor log) \<subseteq> set (map snd tbl) \<Longrightarrow> separated (A @ presentTargets log) pg \<Longrightarrow>
     wellFormed pgv \<and> separated (A @ presentTargets log) pgv \<and> markersShow this log pg pgv \<and>
     (\<forall>e\<in>set A. errorNodes e pgv = errorNodes e pg \<and> (\<forall>c. hasClass c e pgv = hasClass c e pg))"
proof (induction log arbitrary: pg A)
  case Nil
  then show ?case by simp
next
  case (Cons v log)
  have tq: "target v = querySelector (selector (descriptor v)) f (forest pg)"
    using Cons.prems(1) by simp
  have sub: "set (map descriptor log) \<subseteq> set (map snd tbl)" and fd: "descriptor v \<in> set (map snd tbl)"
    using Cons.prems(3) by auto
  show ?case
  proof (cases "target v")
    case None
    then have "validatesEach this f log pg pgv" "presentTargets (v # log) = presentTargets log"
      using Cons.prems(1) by (simp_all add: presentTargets_def)
    then show ?thesis using Cons.IH[OF _ Cons.prems(2) sub, of A] Cons.prems(4) None by simp
  next
    case (Some el)
    let ?T = "presentTargets log"
    have pt: "presentTargets (v # log) = el # ?T" using Some by (simp add: presentTargets_def)
    have sep: "separated (A @ el # ?T) pg" using Cons.prems(4) pt by simp
    have q: "querySelector (selector (descriptor v)) f (forest pg) = Some el" using tq Some by simp
    have d: "distinct (ids (forest pg))" using Cons.prems(2) by (simp add: wellFormed_def)
    show ?thesis
    proof (rule validateField_effect[OF Cons.prems(2) f t fd q])
      fix ok ev pg1 fd' p ep0
      assume e: "validateField this el pg = Inr (ok, ev, pg1)"
        "findRules this el pg = Inr (Some fd')"
        "parentElement el (forest pg) = Some p" "getElem p (forest pg) = Some ep0"
        "wellFormed pg1"
        "hasClass ''field-error'' el pg1 \<longleftrightarrow> \<not> ok"
        "\<And>j c. j \<in> set (ids (forest pg)) \<Longrightarrow> j \<noteq> el \<or> c \<noteq> ''field-error'' \<Longrightarrow>
            hasClass c j pg1 = hasClass c j pg"
        "ownContainer el pg \<Longrightarrow>
           ownContainer el pg1 \<and> parentElement el (forest pg1) = Some p \<and>
           (if ok then errorNodes el pg1 = [] else errorMessages el pg1 = [message fd'])"
        "\<exists>ep'. getElem p (forest pg1) = Some ep' \<and>
            set (ids [ep']) \<subseteq> insert (nextId pg) (set (ids [ep0]))"
        "\<And>q eq. getElem q (forest pg) = Some eq \<Longrightarrow> set (ids [eq]) \<inter> set (ids [ep0]) = {} \<Longrightarrow>
            getElem q (forest pg1) = Some eq"
      have d1: "distinct (ids (forest pg1))" using e(5) by (simp add: wellFormed_def)
      have vv: "valid v = ok" "validatesEach this f log pg1 pgv"
        using Cons.prems(1) Some e(1) by simp_all
      have own: "ownContainer el pg1" "parentElement el (forest pg1) = Some p"
        "if ok then errorNodes el pg1 = [] else errorMessages el pg1 = [message fd']"
        using e(8)[OF separated_own[OF sep]] by simp_all
      have cel: "containerIds el pg = ids [ep0]" by (rule containerIds_eq[OF e(3,4)])
      obtain ep' where ep': "getElem p (forest pg1) = Some ep'"
          "set (ids [ep']) \<subseteq> insert (nextId pg) (set (ids [ep0]))"
        using e(9) by blast
      have cel1: "set (containerIds el pg1) \<subseteq> insert (nextId pg) (set (containerIds el pg))"
        using containerIds_eq[OF own(2) ep'(1)] ep'(2) cel by simp
      \<comment> \<open>the elements in the other containers\<close>
      have other: "containerIds x pg1 = containerIds x pg \<and> errorNodes x pg1 = errorNodes x pg \<and>
          (\<forall>c. hasClass c x pg1 = hasClass c x pg) \<and> ownContainer x pg1"
        if x: "x \<in> set A \<union> set ?T" for x
      proof -
        have ap: "set (containerIds x pg) \<inter> set (containerIds el pg) = {}" "ownContainer x pg"
          using separated_apart[OF sep x] by simp_all
        obtain px where px: "parentElement x (forest pg) = Some px"
          using ap(2) by (auto simp: ownContainer_def)
        obtain epx where epx: "getElem px (forest pg) = Some epx" using parent_elim[OF d px] by blast
        have cx: "containerIds x pg = ids [epx]" by (rule containerIds_eq[OF px epx])
        have g1: "getElem px (forest pg1) = Some ep" if "getElem px (forest pg) = Some ep" for ep
          using e(10)[OF that] that epx ap(1) cx cel by simp
        have fr: "containerIds x pg1 = containerIds x pg" "errorNodes x pg1 = errorNodes x pg"
          "parentElement x (forest pg1) = Some px"
          by (rule container_frame[OF d d1 px g1], assumption)+
        have xin: "x \<in> set (ids (forest pg))" by (rule has_parent_mem[OF px])
        have "x \<in> set (containerIds x pg)" by (rule containerIds_self[OF d px])
        moreover have "el \<in> set (containerIds el pg)" by (rule containerIds_self[OF d e(3)])
        ultimately have "x \<noteq> el" using ap(1) by auto
        then have cls: "hasClass c x pg1 = hasClass c x pg" for c using e(7)[OF xin] by simp
        have "ownContainer x pg1" using ap(2) fr cls by (simp add: ownContainer_def)
        then show ?thesis using fr cls by simp
      qed
      have sep1: "separated (A @ el # ?T) pg1"
        by (rule separated_step[OF sep Cons.prems(2) e(5) own(1) cel1]) (use other in blast)
      then have sep1': "separated ((A @ [el]) @ ?T) pg1" by simp
      have ih: "wellFormed pgv" "separated ((A @ [el]) @ ?T) pgv" "markersShow this log pg1 pgv"
        "\<forall>x\<in>set (A @ [el]). errorNodes x pgv = errorNodes x pg1 \<and> (\<forall>c. hasClass c x pgv = hasClass c x pg1)"
        using Cons.IH[OF vv(2) e(5) sub sep1'] by simp_all
      have mel: "errorNodes el pgv = errorNodes el pg1" "hasClass ''field-error'' el pgv = hasClass ''field-error'' el pg1"
        using ih(4) by simp_all
      have mk: "if valid v then \<not> hasClass ''field-error'' el pgv \<and> errorNodes el pgv = []
          else hasClass ''field-error'' el pgv \<and> errorMessages el pgv = [message fd']"
        using own(3) e(6) mel vv(1) by (cases ok) (simp_all add: errorMessages_def)
      have ms: "markersShow this (v # log) pg pgv"
        using Some e(1,2) mk ih(3) by simp
      have fa: "\<forall>x\<in>set A. errorNodes x pgv = errorNodes x pg \<and> (\<forall>c. hasClass c x pgv = hasClass c x pg)"
        using ih(4) other by simp
      show ?thesis using ih(1,2) ms fa pt by simp
    qed
  qed
qed



text \<open>
  C1, as stated, fails where fields share a container. On this form the email field is
  invalid and the name field is valid: \<open>handleSubmit\<close> validates both, the message of
  the email field is put in the form, and the clearing of the name field removes it.
  The invalid field ends with the class \<^verbatim>\<open>field-error\<close> and no message, so it does
  not carry the marker.
\<close>

theorem handleSubmit_marks_counterexample:
  "(case handleSubmit boundValidator freshEvent flatPage of
      (e', Inl err) \<Rightarrow> False
    | (e', Inr (log, pg')) \<Rightarrow>
        map (\<lambda>v. (target v, valid v)) log =
          [(Some 2, False), (Some 3, True), (None, True), (None, True)] \<and>
        hasClass ''field-error'' 2 pg' \<and> errorMessages 2 pg' = [] \<and>
        containerIds 2 flatPage = containerIds 3 flatPage \<and> \<not> separated [2, 3] flatPage)"
  by code_simp

text \<open>
  C1, amended: on a well-formed page that holds the bound form, \<open>handleSubmit\<close>
  prevents the default submission whatever the fields hold and raises no error. It
  visits the descriptors of the table in declaration order, all of them; each visit
  looks the element up in the form on the page of that moment and, where there is one,
  runs \<open>validateField\<close> on it, also after a field has failed. The success sequence
  \<open>submitForm\<close> runs exactly when every validation reported valid, and it sets the
  first timeout. Otherwise the page is the one the loop left and no timeout is set and
  no element has gained or lost the class of the banner. On the page the loop left,
  every element validated carries \<^verbatim>\<open>field-error\<close> exactly when its last validation
  failed, and the other elements keep the class they had; every input and every text
  area that is not an error-message node has the value it had. When the elements
  validated lie in containers of their own on the page submitted, each one that failed
  carries the marker, the class and its message as the only error-message node of its
  container, and each one that passed carries none.
\<close>

theorem handleSubmit_validates_every_field:
  assumes "wellFormed pg" "form this = Some f" "fields' this = Some fieldTable"
    "f \<in> set (ids (forest pg))"
  shows "\<exists>log pgv pg'.
     handleSubmit this e pg = (e\<lparr>defaultPrevented := True\<rparr>, Inr (log, pg')) \<and>
     map descriptor log = map snd fieldTable \<and>
     validatesEach this f log pg pgv \<and>
     marksAgree log pgv \<and>
     (\<forall>j. (\<forall>v\<in>set log. target v \<noteq> Some j) \<longrightarrow>
          hasClass ''field-error'' j pgv = hasClass ''field-error'' j pg) \<and>
     (separated (presentTargets log) pg \<longrightarrow> markersShow this log pg pgv) \<and>
     (\<forall>j. isTextControl j pg \<and> \<not> hasClass ''error-message'' j pg \<longrightarrow>
          elementValue j pgv = elementValue j pg) \<and>
     (if list_all valid log
      then submitForm this pgv = Inr pg' \<and>
           timers pg' = timers pg @ [(now pg + 2000, ResetThenFade f (nextId pgv))]
      else pg' = pgv \<and> timers pg' = timers pg \<and>
           (\<forall>j. hasClass ''form-success-message'' j pg' = hasClass ''form-success-message'' j pg))"
proof -
  have m0: "marksAgree [] pg" by (simp add: marksAgree_def)
  obtain log pgv where r:
      "validateAll this (map snd fieldTable) True [] pg = Inr (True \<and> list_all valid log, [] @ log, pgv)"
      "map descriptor log = map snd fieldTable" "validatesEach this f log pg pgv"
      "wellFormed pgv" "marksAgree ([] @ log) pgv"
      "\<forall>j. (\<forall>v\<in>set log. target v \<noteq> Some j) \<longrightarrow>
           hasClass ''field-error'' j pgv = hasClass ''field-error'' j pg"
      "\<forall>j. hasClass ''form-success-message'' j pgv = hasClass ''form-success-message'' j pg"
      "\<forall>j\<in>set (ids (forest pg)). \<not> hasClass ''error-message'' j pg \<longrightarrow>
           elementValue j pgv = elementValue j pg"
      "set (ids (forest pg)) \<subseteq> set (ids (forest pgv))"
      "timers pgv = timers pg" "now pgv = now pg"
    using validateAll_spec[OF assms(2,3) subset_refl assms(1) m0, of True] by blast
  have v: "validateAll this (map snd fieldTable) True [] pg = Inr (list_all valid log, log, pgv)"
    using r(1) by simp
  have mem: "f \<in> set (ids (forest pgv))" using assms(4) r(9) by blast
  have mk: "separated (presentTargets log) pg \<longrightarrow> markersShow this log pg pgv"
  proof
    assume "separated (presentTargets log) pg"
    then have "separated ([] @ presentTargets log) pg" by simp
    then show "markersShow this log pg pgv"
      using validatesEach_markers[OF assms(2,3) r(3) assms(1) _ , of "[]"] r(2) by simp
  qed
  have va: "\<forall>j. isTextControl j pg \<and> \<not> hasClass ''error-message'' j pg \<longrightarrow>
          elementValue j pgv = elementValue j pg"
  proof (intro allI impI)
    fix j assume j: "isTextControl j pg \<and> \<not> hasClass ''error-message'' j pg"
    then have "getElem j (forest pg) \<noteq> None" by (auto simp: isTextControl_def split: option.splits)
    then have "j \<in> set (ids (forest pg))" by (simp add: getElem_None_iff)
    then show "elementValue j pgv = elementValue j pg" using r(8) j by blast
  qed
  let ?pg2 = "pgv\<lparr>forest := map (updateKids f (\<lambda>ks. successBanner (nextId pgv) # ks)) (forest pgv),
             nextId := Suc (nextId pgv),
             timers := timers pgv @ [(now pgv + 2000, ResetThenFade f (nextId pgv))]\<rparr>"
  have s: "submitForm this pgv = Inr ?pg2" by (rule submitForm_eq[OF r(4) assms(2) mem])
  show ?thesis
  proof (cases "list_all valid log")
    case True
    have h: "handleSubmit this e pg = (e\<lparr>defaultPrevented := True\<rparr>, Inr (log, ?pg2))"
      using assms(3) v s True by (simp add: handleSubmit_def)
    show ?thesis
      apply (rule exI[of _ log], rule exI[of _ pgv], rule exI[of _ ?pg2])
      apply (intro conjI)
             apply (rule h)
            apply (rule r(2))
           apply (rule r(3))
          apply (use r(5) in simp)
         apply (rule r(6))
        apply (rule mk)
       apply (rule va)
      apply (simp add: True s r(10) r(11))
      done
  next
    case False
    have h: "handleSubmit this e pg = (e\<lparr>defaultPrevented := True\<rparr>, Inr (log, pgv))"
      using assms(3) v False by (simp add: handleSubmit_def)
    show ?thesis
      apply (rule exI[of _ log], rule exI[of _ pgv], rule exI[of _ pgv])
      apply (intro conjI)
             apply (rule h)
            apply (rule r(2))
           apply (rule r(3))
          apply (use r(5) in simp)
         apply (rule r(6))
        apply (rule mk)
       apply (rule va)
      apply (simp add: False r(10) r(7))
      done
  qed
qed

theorem handleSubmit_validates_every_field_witness:
  "wellFormed samplePage \<and> form boundValidator = Some 1 \<and>
   fields' boundValidator = Some fieldTable \<and> 1 \<in> set (ids (forest samplePage)) \<and>
   separated [3, 5, 7, 9] samplePage \<and>
   (\<exists>log pg'.
      handleSubmit boundValidator freshEvent samplePage = (\<lparr>defaultPrevented = True\<rparr>, Inr (log, pg')) \<and>
      map descriptor log = map snd fieldTable \<and>
      map (\<lambda>v. (target v, valid v)) log =
        [(Some 3, True), (Some 5, False), (Some 7, True), (Some 9, False)] \<and>
      validatesEach boundValidator 1 log samplePage pg' \<and>
      markersShow boundValidator log samplePage pg' \<and> marksAgree log pg' \<and> timers pg' = [] \<and>
      \<not> hasClass ''field-error'' 3 pg' \<and> errorMessages 3 pg' = [] \<and>
      hasClass ''field-error'' 5 pg' \<and>
      errorMessages 5 pg' = [js ''Name must be at least 2 characters''] \<and>
      \<not> hasClass ''field-error'' 7 pg' \<and> errorMessages 7 pg' = [] \<and>
      hasClass ''field-error'' 9 pg' \<and>
      errorMessages 9 pg' = [js ''Message must be at least 10 characters''] \<and>
      elementValue 5 pg' = js ''x'')"
proof -
  have h: "wellFormed samplePage" "form boundValidator = Some 1"
    "fields' boundValidator = Some fieldTable" "1 \<in> set (ids (forest samplePage))"
    by (simp_all add: wellFormed_def samplePage_def element_def boundValidator_def)
  have sp: "separated [3, 5, 7, 9] samplePage" by code_simp
  have c: "(case snd (handleSubmit boundValidator freshEvent samplePage) of
             Inl err \<Rightarrow> False
           | Inr (log, pg') \<Rightarrow>
               map (\<lambda>v. (target v, valid v)) log =
                 [(Some 3, True), (Some 5, False), (Some 7, True), (Some 9, False)] \<and>
               \<not> hasClass ''field-error'' 3 pg' \<and> errorMessages 3 pg' = [] \<and>
               hasClass ''field-error'' 5 pg' \<and>
               errorMessages 5 pg' = [js ''Name must be at least 2 characters''] \<and>
               \<not> hasClass ''field-error'' 7 pg' \<and> errorMessages 7 pg' = [] \<and>
               hasClass ''field-error'' 9 pg' \<and>
               errorMessages 9 pg' = [js ''Message must be at least 10 characters''])"
    by code_simp
  have t: "timers samplePage = []" "elementValue 5 samplePage = js ''x''"
    "isTextControl 5 samplePage" "\<not> hasClass ''error-message'' 5 samplePage"
    by (simp_all add: samplePage_def elementValue_def element_def isTextControl_def hasClass_def)
  obtain log pgv pg' where r:
      "handleSubmit boundValidator freshEvent samplePage =
         (freshEvent\<lparr>defaultPrevented := True\<rparr>, Inr (log, pg'))"
      "map descriptor log = map snd fieldTable" "validatesEach boundValidator 1 log samplePage pgv"
      "marksAgree log pgv"
      "separated (presentTargets log) samplePage \<longrightarrow> markersShow boundValidator log samplePage pgv"
      "\<forall>j. isTextControl j samplePage \<and> \<not> hasClass ''error-message'' j samplePage \<longrightarrow>
          elementValue j pgv = elementValue j samplePage"
      "if list_all valid log
       then submitForm boundValidator pgv = Inr pg' \<and>
            timers pg' = timers samplePage @ [(now samplePage + 2000, ResetThenFade 1 (nextId pgv))]
       else pg' = pgv \<and> timers pg' = timers samplePage \<and>
            (\<forall>j. hasClass ''form-success-message'' j pg' = hasClass ''form-success-message'' j samplePage)"
    using handleSubmit_validates_every_field[OF h, of freshEvent] by blast
  have l: "map (\<lambda>v. (target v, valid v)) log =
      [(Some 3, True), (Some 5, False), (Some 7, True), (Some 9, False)]"
    and cm: "\<not> hasClass ''field-error'' 3 pg'" "errorMessages 3 pg' = []"
      "hasClass ''field-error'' 5 pg'"
      "errorMessages 5 pg' = [js ''Name must be at least 2 characters'']"
      "\<not> hasClass ''field-error'' 7 pg'" "errorMessages 7 pg' = []"
      "hasClass ''field-error'' 9 pg'"
      "errorMessages 9 pg' = [js ''Message must be at least 10 characters'']"
    using c r(1) by simp_all
  from l obtain v1 v2 v3 v4 where log: "log = [v1, v2, v3, v4]"
      "target v1 = Some 3" "valid v1" "target v2 = Some 5" "\<not> valid v2"
      "target v3 = Some 7" "valid v3" "target v4 = Some 9" "\<not> valid v4"
    by auto
  have pt: "presentTargets log = [3, 5, 7, 9]" using log by (simp add: presentTargets_def)
  have nv: "\<not> list_all valid log" using log by simp
  then have e: "pg' = pgv" "timers pg' = []" using r(7) t(1) by auto
  have ms: "markersShow boundValidator log samplePage pg'" using r(5) pt sp e(1) by simp
  have "elementValue 5 pg' = js ''x''" using r(6) e(1) t by simp
  then show ?thesis using h sp r(1,2,3,4) l ms e cm by (auto simp: freshEvent_def)
qed



section \<open>The clock\<close>






section \<open>Resetting a form\<close>


lemma roots_resetTree: "map eid (map resetTree F) = map eid F"
  by (induction F rule: forest_induct) simp_all





section \<open>The banner in the forest\<close>




section \<open>The tree of the document\<close>










lemma elementValue_now [simp]: "elementValue j (s\<lparr>now := x\<rparr>) = elementValue j s"
  by (simp add: elementValue_def)

lemma inDocument_now [simp]: "inDocument j (s\<lparr>now := x\<rparr>) = inDocument j s"
  by (simp add: inDocument_def)

lemma firstChild_now [simp]: "firstChild j (s\<lparr>now := x\<rparr>) = firstChild j s"
  by (simp add: firstChild_def)

lemma formControls_now [simp]: "formControls j (s\<lparr>now := x\<rparr>) = formControls j s"
  by (simp add: formControls_def)

lemma animation_now [simp]: "animation j (s\<lparr>now := x\<rparr>) = animation j s"
  by (simp add: animation_def)

lemma nid_setStyle [simp]: "nid (setStyle k v n) = nid n"
  by (simp add: setStyle_def)







text \<open>
  C3: the validator is meant to bind to the first form that one of three lookups finds.
  The code never reaches the second and the third lookup: a \<^verbatim>\<open>new\<close> expression is
  an object, which is truthy, so \<^verbatim>\<open>||\<close> stops at the first instance, bound or
  inert. On a document with a \<^verbatim>\<open>form.contact-form\<close> and no form named
  \<^verbatim>\<open>contact\<close> the second lookup would find the form, and the instance is inert:
  no form, no fields, no listener.
\<close>

theorem contactForm_no_fallback:
  "contactForm pg = newFormValidator (Selector (Some ''form'') (Some (''name'', ''contact'')) None) pg \<and>
   documentQuerySelector (Selector (Some ''form'') None (Some ''contact-form'')) classFormPage = Some 1 \<and>
   contactForm classFormPage = Inr (\<lparr>form = None, fields' = None\<rparr>, classFormPage) \<and>
   listeners classFormPage = []"
proof -
  have "contactForm pg = newFormValidator (Selector (Some ''form'') (Some (''name'', ''contact'')) None) pg"
    by (simp add: contactForm_def truthy_def split: sum.splits prod.splits)
  moreover have "documentQuerySelector (Selector (Some ''form'') None (Some ''contact-form'')) classFormPage = Some 1"
    by (simp add: documentQuerySelector_def classFormPage_def element_def getElem_def allNodes_def eid_def attrMatches_def)
  moreover have "contactForm classFormPage = Inr (\<lparr>form = None, fields' = None\<rparr>, classFormPage)"
    by (simp add: contactForm_def truthy_def newFormValidator_def documentQuerySelector_def
        classFormPage_def element_def getElem_def allNodes_def eid_def attrMatches_def)
  moreover have "listeners classFormPage = []" by (simp add: classFormPage_def)
  ultimately show ?thesis by blast
qed

end
